theory Spec2Isabelle
  imports Main "HOL-Library.Word"
begin

unbundle bit_operations_syntax

section \<open>Data model of \<^verbatim>\<open>bf.cpp\<close>\<close>

text \<open>
  \<^verbatim>\<open>size_t\<close> is a 64-bit unsigned integer (the state of \<^verbatim>\<open>main\<close> is built from
  \<^verbatim>\<open>0ull\<close>), \<^verbatim>\<open>uint8_t\<close> an 8-bit one. Both wrap around.
\<close>

type_synonym size_t = "64 word"
type_synonym uint8_t = "8 word"

text \<open>
  What a run can end in besides a value. \<open>UndefinedBehaviour\<close> stands for the places
  where C++ gives the program no meaning: a tape access outside the array, calling
  through a null instruction pointer, \<^verbatim>\<open>back()\<close> on an empty vector, indexing a
  container outside its range, streaming a null \<^verbatim>\<open>char *\<close>. \<open>OutOfRange\<close> is the
  exception \<^verbatim>\<open>std::out_of_range\<close> that \<^verbatim>\<open>std::map::at\<close> throws; nothing in the
  program catches it.
\<close>

datatype error = UndefinedBehaviour | OutOfRange

text \<open>
  \<^verbatim>\<open>BrainfuckState\<close>: the two counters and the tape. The tape is a pointer to an array
  of bytes; the model keeps the array, and an index outside it is undefined behaviour.
\<close>

record BrainfuckState =
  data_counter :: size_t
  program_counter :: size_t
  field :: "uint8_t list"

text \<open>
  The process's standard streams, which \<^verbatim>\<open>getchar\<close>, \<^verbatim>\<open>putchar\<close> and
  \<^verbatim>\<open>printf\<close> act on: the bytes still to be read, and the bytes written so far.
\<close>

record io =
  stdin :: "uint8_t list"
  stdout :: "uint8_t list"

type_synonym machine = "BrainfuckState \<times> io"

subsection \<open>Outputters and the inputter\<close>

datatype outputter = StdOutputter | HexOutputter

text \<open>The ASCII code of one lowercase hexadecimal digit, as \<^verbatim>\<open>%x\<close> prints it.\<close>

definition hex_digit :: "nat \<Rightarrow> uint8_t" where
  "hex_digit n = (if n < 10 then of_nat (48 + n) else of_nat (87 + n))"

text \<open>
  \<^verbatim>\<open>StdOutputter::out\<close> is \<^verbatim>\<open>putchar(x)\<close>; \<^verbatim>\<open>HexOutputter::out\<close> is
  \<^verbatim>\<open>printf("%02x", x & 0xff)\<close>. The result is the bytes appended to the output.
\<close>

fun out :: "outputter \<Rightarrow> uint8_t \<Rightarrow> uint8_t list" where
  "out StdOutputter x = [x]"
| "out HexOutputter x =
     [hex_digit (unat (x AND 0xff) div 16), hex_digit (unat (x AND 0xff) mod 16)]"

text \<open>
  \<^verbatim>\<open>StdInputter::in\<close> is \<^verbatim>\<open>return std::getchar();\<close> with return type
  \<^verbatim>\<open>uint8_t\<close>: at end of input \<^verbatim>\<open>getchar\<close> gives \<^verbatim>\<open>EOF\<close> (-1), which the
  conversion turns into 255.
\<close>

definition StdInputter_in :: "io \<Rightarrow> uint8_t \<times> io" where
  "StdInputter_in w =
     (case stdin w of
        [] \<Rightarrow> (255, w)
      | b # bs \<Rightarrow> (b, w\<lparr>stdin := bs\<rparr>))"

subsection \<open>Instructions\<close>

text \<open>
  The eight classes derived from \<^verbatim>\<open>Instruction\<close>. The jump instructions carry
  \<^verbatim>\<open>m_to\<close>; the output instruction carries its \<^verbatim>\<open>Outputter\<close> policy.
\<close>

datatype instruction =
    NextDataInstruction
  | PrevDataInstruction
  | IncDataInstruction
  | DecDataInstruction
  | JumpZeroInstruction size_t
  | JumpNonzeroInstruction size_t
  | InInstruction
  | OutInstruction outputter

text \<open>\<^verbatim>\<open>state.field[state.data_counter]\<close> is defined only inside the array.\<close>

definition in_field :: "BrainfuckState \<Rightarrow> bool" where
  "in_field state = (unat (data_counter state) < length (field state))"

definition cell :: "BrainfuckState \<Rightarrow> uint8_t" where
  "cell state = field state ! unat (data_counter state)"

definition set_cell :: "BrainfuckState \<Rightarrow> uint8_t \<Rightarrow> BrainfuckState" where
  "set_cell state v = state\<lparr>field := (field state)[unat (data_counter state) := v]\<rparr>"

text \<open>The \<^verbatim>\<open>execute\<close> method of each class.\<close>

fun execute :: "instruction \<Rightarrow> machine \<Rightarrow> error + machine" where
  "execute NextDataInstruction (state, w) =
     Inr (state\<lparr>data_counter := data_counter state + 1\<rparr>, w)"
| "execute PrevDataInstruction (state, w) =
     Inr (state\<lparr>data_counter := data_counter state - 1\<rparr>, w)"
| "execute IncDataInstruction (state, w) =
     (if in_field state then Inr (set_cell state (cell state + 1), w)
      else Inl UndefinedBehaviour)"
| "execute DecDataInstruction (state, w) =
     (if in_field state then Inr (set_cell state (cell state - 1), w)
      else Inl UndefinedBehaviour)"
| "execute (JumpZeroInstruction m_to) (state, w) =
     (if in_field state
      then (if 0 = cell state then Inr (state\<lparr>program_counter := m_to\<rparr>, w)
            else Inr (state, w))
      else Inl UndefinedBehaviour)"
| "execute (JumpNonzeroInstruction m_to) (state, w) =
     (if in_field state
      then (if 0 \<noteq> cell state then Inr (state\<lparr>program_counter := m_to\<rparr>, w)
            else Inr (state, w))
      else Inl UndefinedBehaviour)"
| "execute InInstruction (state, w) =
     (if in_field state
      then (case StdInputter_in w of (x, w') \<Rightarrow> Inr (set_cell state x, w'))
      else Inl UndefinedBehaviour)"
| "execute (OutInstruction outp) (state, w) =
     (if in_field state
      then Inr (state, w\<lparr>stdout := stdout w @ out outp (cell state)\<rparr>)
      else Inl UndefinedBehaviour)"

subsection \<open>Programs\<close>

text \<open>
  \<^verbatim>\<open>unique_ptr_code\<close>: a vector of owning pointers, each null (\<open>None\<close>) until
  assigned.
\<close>

type_synonym unique_ptr_code = "instruction option list"

text \<open>
  \<^verbatim>\<open>FlyweightCode\<close>: the source text, the map from bracket positions to their jump
  instructions, and the \<^verbatim>\<open>Outputter\<close> policy of its shared \<^verbatim>\<open>m_out\<close>. The other
  shared members (\<^verbatim>\<open>m_inc\<close>, \<^verbatim>\<open>m_dec\<close>, \<^verbatim>\<open>m_next\<close>, \<^verbatim>\<open>m_prev\<close>, \<^verbatim>\<open>m_in\<close>)
  carry no data.
\<close>

record FlyweightCode =
  m_code :: string
  m_bracket_map :: "nat \<rightharpoonup> instruction"
  m_out :: outputter

text \<open>The two types the interpreter's \<^verbatim>\<open>BFCode\<close> parameter is instantiated with.\<close>

datatype BFCode = UniquePtrCode unique_ptr_code | Flyweight FlyweightCode

text \<open>
  \<^verbatim>\<open>FlyweightCode::operator[]\<close>. \<^verbatim>\<open>m_code[i]\<close> is the character at \<open>i\<close>, the
  terminating null character at \<open>i = length\<close>, and undefined beyond. A character that
  matches no case leaves the switch and returns \<^verbatim>\<open>nullptr\<close>. \<^verbatim>\<open>std::map::at\<close>
  throws \<^verbatim>\<open>std::out_of_range\<close> for a key the map does not hold.
\<close>

definition flyweight_at :: "FlyweightCode \<Rightarrow> nat \<Rightarrow> error + instruction option" where
  "flyweight_at fw i =
     (if i < length (m_code fw) then
        (let c = m_code fw ! i in
         if c = CHR ''+'' then Inr (Some IncDataInstruction)
         else if c = CHR ''-'' then Inr (Some DecDataInstruction)
         else if c = CHR ''>'' then Inr (Some NextDataInstruction)
         else if c = CHR ''<'' then Inr (Some PrevDataInstruction)
         else if c = CHR ''.'' then Inr (Some (OutInstruction (m_out fw)))
         else if c = CHR '','' then Inr (Some InInstruction)
         else if c = CHR ''['' \<or> c = CHR '']'' then
           (case m_bracket_map fw i of
              None \<Rightarrow> Inl OutOfRange
            | Some ins \<Rightarrow> Inr (Some ins))
         else Inr None)
      else if i = length (m_code fw) then Inr None
      else Inl UndefinedBehaviour)"

text \<open>\<^verbatim>\<open>m_code[i]\<close> of the interpreter: the vector's or the flyweight's indexing.\<close>

fun code_at :: "BFCode \<Rightarrow> nat \<Rightarrow> error + instruction option" where
  "code_at (UniquePtrCode v) i = (if i < length v then Inr (v ! i) else Inl UndefinedBehaviour)"
| "code_at (Flyweight fw) i = flyweight_at fw i"

fun code_size :: "BFCode \<Rightarrow> nat" where
  "code_size (UniquePtrCode v) = length v"
| "code_size (Flyweight fw) = length (m_code fw)"

section \<open>The interpreter\<close>

text \<open>
  \<^verbatim>\<open>BrainfuckInterpreter::step\<close>: fetch \<^verbatim>\<open>m_code[state.program_counter]\<close>, call its
  \<^verbatim>\<open>execute\<close> (through a null pointer that is undefined), then
  \<^verbatim>\<open>state.program_counter++\<close>.
\<close>

definition step :: "BFCode \<Rightarrow> machine \<Rightarrow> error + machine" where
  "step code m =
     (case code_at code (unat (program_counter (fst m))) of
        Inl e \<Rightarrow> Inl e
      | Inr None \<Rightarrow> Inl UndefinedBehaviour
      | Inr (Some ins) \<Rightarrow>
          (case execute ins m of
             Inl e \<Rightarrow> Inl e
           | Inr (state, w) \<Rightarrow>
               Inr (state\<lparr>program_counter := program_counter state + 1\<rparr>, w)))"

text \<open>
  \<^verbatim>\<open>BrainfuckInterpreter::interpret\<close> (\<open>interpret\<close> is a keyword of Isabelle, hence
  the longer name): the loop may run forever, so the result is
  an option: \<open>None\<close> when it never returns, \<open>Some (Inl e)\<close> when a step ends the run
  with \<open>e\<close>, \<open>Some (Inr m)\<close> when the loop condition fails in \<open>m\<close>.
\<close>

partial_function (option) interpret_code :: "BFCode \<Rightarrow> machine \<Rightarrow> (error + machine) option" where
  "interpret_code code m =
     (if unat (program_counter (fst m)) < code_size code then
        (case step code m of
           Inl e \<Rightarrow> Some (Inl e)
         | Inr m' \<Rightarrow> interpret_code code m')
      else Some (Inr m))"

section \<open>Building programs\<close>

text \<open>
  The loop of \<^verbatim>\<open>FlyweightCode::build_bracket_map\<close>, from index \<open>i\<close> on. The
  vector \<^verbatim>\<open>bracket_stack\<close> is used as a stack only (\<^verbatim>\<open>push_back\<close>, \<^verbatim>\<open>back\<close>,
  \<^verbatim>\<open>pop_back\<close>); the list keeps its top first. \<^verbatim>\<open>back()\<close> on an empty vector is
  undefined.
\<close>

function build_bracket_map_loop ::
  "string \<Rightarrow> nat \<Rightarrow> nat list \<Rightarrow> (nat \<rightharpoonup> instruction) \<Rightarrow> error + (nat \<rightharpoonup> instruction)" where
  "build_bracket_map_loop code i bracket_stack bracket_map =
     (if i < length code then
        (if CHR ''['' = code ! i then
           build_bracket_map_loop code (i + 1) (i # bracket_stack) bracket_map
         else if CHR '']'' = code ! i then
           (case bracket_stack of
              [] \<Rightarrow> Inl UndefinedBehaviour
            | j # rest \<Rightarrow>
                build_bracket_map_loop code (i + 1) rest
                  (bracket_map(j \<mapsto> JumpZeroInstruction (of_nat i),
                               i \<mapsto> JumpNonzeroInstruction (of_nat j))))
         else build_bracket_map_loop code (i + 1) bracket_stack bracket_map)
      else Inr bracket_map)"
  by pat_completeness auto
termination
  by (relation "measure (\<lambda>(code, i, _, _). length code - i)") auto

definition build_bracket_map :: "string \<Rightarrow> error + (nat \<rightharpoonup> instruction)" where
  "build_bracket_map code = build_bracket_map_loop code 0 [] Map.empty"

text \<open>The constructor of \<^verbatim>\<open>FlyweightCode<BFState, Outputter>\<close>.\<close>

definition FlyweightCode_ctor :: "outputter \<Rightarrow> string \<Rightarrow> error + FlyweightCode" where
  "FlyweightCode_ctor outp code =
     (case build_bracket_map code of
        Inl e \<Rightarrow> Inl e
      | Inr bm \<Rightarrow> Inr \<lparr>m_code = code, m_bracket_map = bm, m_out = outp\<rparr>)"

text \<open>
  The loop of \<^verbatim>\<open>parse_code\<close>, from index \<open>i\<close> on. \<open>j\<close> comes off the stack, so
  it is an earlier index of \<open>ret\<close>.
\<close>

function parse_code_loop ::
  "string \<Rightarrow> nat \<Rightarrow> nat list \<Rightarrow> unique_ptr_code \<Rightarrow> error + unique_ptr_code" where
  "parse_code_loop code i brackets ret =
     (if i < length code then
        (let c = code ! i in
         if c = CHR ''+'' then
           parse_code_loop code (i + 1) brackets (ret[i := Some IncDataInstruction])
         else if c = CHR ''-'' then
           parse_code_loop code (i + 1) brackets (ret[i := Some DecDataInstruction])
         else if c = CHR ''>'' then
           parse_code_loop code (i + 1) brackets (ret[i := Some NextDataInstruction])
         else if c = CHR ''<'' then
           parse_code_loop code (i + 1) brackets (ret[i := Some PrevDataInstruction])
         else if c = CHR ''.'' then
           parse_code_loop code (i + 1) brackets (ret[i := Some (OutInstruction StdOutputter)])
         else if c = CHR '','' then
           parse_code_loop code (i + 1) brackets (ret[i := Some InInstruction])
         else if c = CHR ''['' then
           parse_code_loop code (i + 1) (i # brackets) ret
         else if c = CHR '']'' then
           (case brackets of
              [] \<Rightarrow> Inl UndefinedBehaviour
            | j # rest \<Rightarrow>
                parse_code_loop code (i + 1) rest
                  (ret[j := Some (JumpZeroInstruction (of_nat i)),
                       i := Some (JumpNonzeroInstruction (of_nat j))]))
         else parse_code_loop code (i + 1) brackets ret)
      else Inr ret)"
  by pat_completeness auto
termination
  by (relation "measure (\<lambda>(code, i, _, _). length code - i)") auto

definition parse_code :: "string \<Rightarrow> error + unique_ptr_code" where
  "parse_code code = parse_code_loop code 0 [] (replicate (length code) None)"

section \<open>The program's entry point\<close>

definition is_bf_char :: "char \<Rightarrow> bool" where
  "is_bf_char c =
     (if c = CHR ''+'' then True
      else if c = CHR ''-'' then True
      else if c = CHR ''>'' then True
      else if c = CHR ''<'' then True
      else if c = CHR ''.'' then True
      else if c = CHR '','' then True
      else if c = CHR ''['' then True
      else if c = CHR '']'' then True
      else False)"

text \<open>The \<^verbatim>\<open>std::copy_if\<close> of \<^verbatim>\<open>main\<close>: the characters of the source that pass \<^verbatim>\<open>is_bf_char\<close>, in order.\<close>

definition copy_if_bf :: "string \<Rightarrow> string" where
  "copy_if_bf source = filter is_bf_char source"

text \<open>The state \<^verbatim>\<open>main\<close> creates: both counters 0, \<^verbatim>\<open>0x2000\<close> cells set to 0.\<close>

definition initial_state :: BrainfuckState where
  "initial_state = \<lparr>data_counter = 0, program_counter = 0, field = replicate 0x2000 0\<rparr>"

text \<open>
  What a process leaves behind: its exit status, what it wrote to the error stream, the
  files it opened, and the standard streams.
\<close>

record process =
  exit_status :: int
  cerr :: string
  opened :: "string list"
  streams :: io

text \<open>
  \<^verbatim>\<open>main\<close>. \<open>argv\<close> is the argument vector (\<open>argc\<close> its length), \<open>files\<close> the
  file system, \<open>w\<close> the standard streams. With \<open>argc = 0\<close> the pointer \<^verbatim>\<open>argv[0]\<close>
  is null and streaming it is undefined. A file that cannot be opened leaves the stream
  failed, and the copy reads nothing from it. Falling off the end of \<^verbatim>\<open>main\<close>
  returns 0.
\<close>

definition main :: "string list \<Rightarrow> (string \<rightharpoonup> string) \<Rightarrow> io \<Rightarrow> (error + process) option" where
  "main argv files w =
     (if length argv < 2 then
        (case argv of
           [] \<Rightarrow> Some (Inl UndefinedBehaviour)
         | argv0 # _ \<Rightarrow>
             Some (Inr \<lparr>exit_status = 1,
                        cerr = ''Usage: '' @ argv0 @ '' [bf-file]'' @ [CHR 0x0A],
                        opened = [], streams = w\<rparr>))
      else
        (let source = (case files (argv ! 1) of None \<Rightarrow> [] | Some bytes \<Rightarrow> bytes);
             code_string = copy_if_bf source
         in case FlyweightCode_ctor StdOutputter code_string of
              Inl e \<Rightarrow> Some (Inl e)
            | Inr code \<Rightarrow>
                (case interpret_code (Flyweight code) (initial_state, w) of
                   None \<Rightarrow> None
                 | Some (Inl e) \<Rightarrow> Some (Inl e)
                 | Some (Inr (state, w')) \<Rightarrow>
                     Some (Inr \<lparr>exit_status = 0, cerr = [], opened = [argv ! 1],
                                streams = w'\<rparr>))))"

section \<open>Vocabulary of the properties\<close>

text \<open>
  Balanced brackets, read off the text alone: \<open>depth\<close> counts the brackets open so
  far; a \<open>]\<close> needs an open one, and none may stay open at the end.
\<close>

fun balanced_from :: "nat \<Rightarrow> string \<Rightarrow> bool" where
  "balanced_from depth [] = (depth = 0)"
| "balanced_from depth (c # cs) =
     (if c = CHR ''['' then balanced_from (depth + 1) cs
      else if c = CHR '']'' then 0 < depth \<and> balanced_from (depth - 1) cs
      else balanced_from depth cs)"

definition balanced :: "string \<Rightarrow> bool" where
  "balanced code = balanced_from 0 code"

text \<open>The characters of \<open>code\<close> at the indices from \<open>a\<close> up to, not including, \<open>b\<close>.\<close>

definition segment :: "string \<Rightarrow> nat \<Rightarrow> nat \<Rightarrow> string" where
  "segment code a b = take (b - a) (drop a code)"

text \<open>
  The \<open>[\<close> at \<open>i\<close> and the \<open>]\<close> at \<open>j\<close> match: \<open>i\<close> comes first and the text
  strictly between them is balanced.
\<close>

definition matches :: "string \<Rightarrow> nat \<Rightarrow> nat \<Rightarrow> bool" where
  "matches code i j =
     (i < j \<and> j < length code \<and> code ! i = CHR ''['' \<and> code ! j = CHR '']'' \<and>
      balanced (segment code (i + 1) j))"

text \<open>
  A \<open>]\<close> is unmatched when no \<open>[\<close> matches it, a \<open>[\<close> when no \<open>]\<close> matches it.
\<close>

definition unmatched_close :: "string \<Rightarrow> nat \<Rightarrow> bool" where
  "unmatched_close code j =
     (j < length code \<and> code ! j = CHR '']'' \<and> (\<forall>i < j. \<not> matches code i j))"

definition unmatched_open :: "string \<Rightarrow> nat \<Rightarrow> bool" where
  "unmatched_open code i =
     (i < length code \<and> code ! i = CHR ''['' \<and> (\<forall>j < length code. \<not> matches code i j))"

text \<open>\<open>n\<close> rounds of the loop body of \<^verbatim>\<open>interpret\<close>, stopping at the first error.\<close>

fun run_steps :: "BFCode \<Rightarrow> nat \<Rightarrow> machine \<Rightarrow> error + machine" where
  "run_steps code 0 m = Inr m"
| "run_steps code (Suc n) m =
     (case step code m of
        Inl e \<Rightarrow> Inl e
      | Inr m' \<Rightarrow> run_steps code n m')"

text \<open>The loop condition of \<^verbatim>\<open>interpret\<close>.\<close>

definition running :: "BFCode \<Rightarrow> machine \<Rightarrow> bool" where
  "running code m = (unat (program_counter (fst m)) < code_size code)"

text \<open>
  How a run of the loop that returns \<open>r\<close> came about: either \<open>r\<close> is a machine in
  which the loop condition fails, reached by some number of rounds in each of which the
  condition held; or \<open>r\<close> is an error that a step raised after such rounds.
\<close>

definition loop_outcome :: "BFCode \<Rightarrow> machine \<Rightarrow> error + machine \<Rightarrow> bool" where
  "loop_outcome code m r =
   (case r of
      Inr m' \<Rightarrow> \<not> running code m' \<and>
        (\<exists>n. run_steps code n m = Inr m' \<and>
           (\<forall>k < n. \<exists>mk. run_steps code k m = Inr mk \<and> running code mk))
    | Inl e \<Rightarrow>
        (\<exists>n mk. run_steps code n m = Inr mk \<and> running code mk \<and> step code mk = Inl e \<and>
           (\<forall>k < n. \<exists>mk. run_steps code k m = Inr mk \<and> running code mk)))"

text \<open>
  What the bracket stack means at index \<open>i\<close>: its entries are positions of \<open>[\<close>,
  latest first, and the text after each of them, up to the next entry above it (or up
  to \<open>i\<close> for the top), is balanced; so is the text before the lowest entry.
\<close>

fun open_segments :: "string \<Rightarrow> nat \<Rightarrow> nat list \<Rightarrow> bool" where
  "open_segments code i [] = balanced (segment code 0 i)"
| "open_segments code i (k # rest) =
     (k < i \<and> code ! k = CHR ''['' \<and> balanced (segment code (k + 1) i) \<and>
      open_segments code k rest)"

text \<open>
  The invariant of the loop of \<^verbatim>\<open>build_bracket_map\<close> at index \<open>i\<close>: the stack is as
  above; every matching pair that closes before \<open>i\<close> is in the map, each bracket with
  the other's index; the map holds nothing else; and every bracket before \<open>i\<close> is
  on the stack or in the map.
\<close>

definition bracket_inv :: "string \<Rightarrow> nat \<Rightarrow> nat list \<Rightarrow> (nat \<rightharpoonup> instruction) \<Rightarrow> bool" where
  "bracket_inv code i st bm =
     (i \<le> length code \<and> open_segments code i st \<and>
      (\<forall>a b. matches code a b \<and> b < i \<longrightarrow>
         bm a = Some (JumpZeroInstruction (of_nat b)) \<and>
         bm b = Some (JumpNonzeroInstruction (of_nat a))) \<and>
      (\<forall>k. bm k \<noteq> None \<longrightarrow> (\<exists>a b. matches code a b \<and> b < i \<and> (k = a \<or> k = b))) \<and>
      (\<forall>k < i. code ! k = CHR ''['' \<or> code ! k = CHR '']'' \<longrightarrow> k \<in> set st \<or> bm k \<noteq> None))"

text \<open>
  The instruction of a character that is not a bracket, as \<^verbatim>\<open>parse_code\<close> makes it;
  no instruction (a null pointer) for a character outside the language.
\<close>

definition simple_instruction :: "char \<Rightarrow> instruction option" where
  "simple_instruction c =
     (if c = CHR ''+'' then Some IncDataInstruction
      else if c = CHR ''-'' then Some DecDataInstruction
      else if c = CHR ''>'' then Some NextDataInstruction
      else if c = CHR ''<'' then Some PrevDataInstruction
      else if c = CHR ''.'' then Some (OutInstruction StdOutputter)
      else if c = CHR '','' then Some InInstruction
      else None)"

text \<open>
  How the vector of \<^verbatim>\<open>parse_code\<close> and the map of \<^verbatim>\<open>build_bracket_map\<close> correspond
  at index \<open>i\<close>, both loops holding the same stack: at a bracket the vector holds what
  the map holds; elsewhere it holds the character's instruction before \<open>i\<close> and a
  null pointer from \<open>i\<close> on.
\<close>

definition builders_rel ::
  "string \<Rightarrow> nat \<Rightarrow> nat list \<Rightarrow> unique_ptr_code \<Rightarrow> (nat \<rightharpoonup> instruction) \<Rightarrow> bool" where
  "builders_rel code i st ret bm =
     (i \<le> length code \<and> length ret = length code \<and>
      (\<forall>k \<in> set st. k < i \<and> code ! k = CHR ''['') \<and>
      (\<forall>k < length code. ret ! k =
         (if code ! k = CHR ''['' \<or> code ! k = CHR '']'' then bm k
          else if k < i then simple_instruction (code ! k)
          else None)))"

text \<open>Two programs of one size that hold the same at every index below it.\<close>

definition same_code :: "BFCode \<Rightarrow> BFCode \<Rightarrow> bool" where
  "same_code c1 c2 =
     (code_size c1 = code_size c2 \<and> (\<forall>i < code_size c1. code_at c1 i = code_at c2 i))"

declare build_bracket_map_loop.simps [simp del]
declare parse_code_loop.simps [simp del]

section \<open>Cell arithmetic\<close>

lemma unat_u8_inc: "unat (x + 1 :: uint8_t) = (if unat x = 255 then 0 else unat x + 1)"
proof -
  have "unat x < 2 ^ LENGTH(8)" by (rule unsigned_less)
  then show ?thesis by (auto simp add: unat_word_ariths)
qed

lemma unat_u8_dec: "unat (x - 1 :: uint8_t) = (if unat x = 0 then 255 else unat x - 1)"
proof (cases "x = 0")
  case True
  then show ?thesis by (simp add: unsigned_minus_1_eq_mask mask_eq_exp_minus_1)
next
  case False
  then show ?thesis by (simp add: unat_minus_one unat_eq_zero)
qed

text \<open>
  C5. Cell arithmetic wraps modulo 256 in both directions. On every state whose data
  counter addresses a cell of the tape, \<open>IncDataInstruction\<close> turns a cell holding 255
  into 0 and adds exactly 1 to any other value; \<open>DecDataInstruction\<close> turns a cell
  holding 0 into 255 and subtracts exactly 1 from any other value. Neither touches the
  standard streams.
\<close>

theorem cell_arithmetic_wraps:
  "in_field state \<Longrightarrow>
     (\<exists>state'. execute IncDataInstruction (state, w) = Inr (state', w) \<and>
        unat (cell state') = (if unat (cell state) = 255 then 0 else unat (cell state) + 1)) \<and>
     (\<exists>state'. execute DecDataInstruction (state, w) = Inr (state', w) \<and>
        unat (cell state') = (if unat (cell state) = 0 then 255 else unat (cell state) - 1))"
  by (simp add: in_field_def cell_def set_cell_def unat_u8_inc unat_u8_dec)

text \<open>
  The theorem at a two-cell tape: incrementing the cell that holds 255 gives 0, and
  decrementing the cell that holds 0 gives 255.
\<close>

theorem cell_arithmetic_wraps_witness:
  "in_field \<lparr>data_counter = 1, program_counter = 0, field = [0, 255]\<rparr> \<and>
   (\<exists>state'. execute IncDataInstruction
        (\<lparr>data_counter = 1, program_counter = 0, field = [0, 255]\<rparr>, \<lparr>stdin = [], stdout = []\<rparr>) =
          Inr (state', \<lparr>stdin = [], stdout = []\<rparr>) \<and> unat (cell state') = 0) \<and>
   in_field \<lparr>data_counter = 0, program_counter = 0, field = [0, 255]\<rparr> \<and>
   (\<exists>state'. execute DecDataInstruction
        (\<lparr>data_counter = 0, program_counter = 0, field = [0, 255]\<rparr>, \<lparr>stdin = [], stdout = []\<rparr>) =
          Inr (state', \<lparr>stdin = [], stdout = []\<rparr>) \<and> unat (cell state') = 255)"
  using cell_arithmetic_wraps [of "\<lparr>data_counter = 1, program_counter = 0, field = [0, 255]\<rparr>" "\<lparr>stdin = [], stdout = []\<rparr>"]
    cell_arithmetic_wraps [of "\<lparr>data_counter = 0, program_counter = 0, field = [0, 255]\<rparr>" "\<lparr>stdin = [], stdout = []\<rparr>"]
  by (simp add: in_field_def cell_def)

section \<open>Source filtering\<close>

text \<open>
  C7. Source filtering is idempotent: a string made only of the eight operation
  characters passes the filter unchanged, and filtering any raw input twice gives the
  same as filtering it once.
\<close>

theorem filtering_idempotent:
  "(set source \<subseteq> {CHR ''+'', CHR ''-'', CHR ''>'', CHR ''<'', CHR ''.'', CHR '','', CHR ''['', CHR '']''} \<longrightarrow>
      copy_if_bf source = source) \<and>
   copy_if_bf (copy_if_bf raw) = copy_if_bf raw"
proof
  show "set source \<subseteq> {CHR ''+'', CHR ''-'', CHR ''>'', CHR ''<'', CHR ''.'', CHR '','', CHR ''['', CHR '']''} \<longrightarrow>
      copy_if_bf source = source"
    by (auto simp add: copy_if_bf_def is_bf_char_def filter_id_conv)
  show "copy_if_bf (copy_if_bf raw) = copy_if_bf raw"
    by (simp add: copy_if_bf_def)
qed

text \<open>
  The theorem at the source \<open>,[.-]<>+\<close>, which uses all eight characters, and at a
  raw input with a comment and a line break around \<open>+[-]\<close>.
\<close>

theorem filtering_idempotent_witness:
  "set '',[.-]<>+'' \<subseteq> {CHR ''+'', CHR ''-'', CHR ''>'', CHR ''<'', CHR ''.'', CHR '','', CHR ''['', CHR '']''} \<and>
   copy_if_bf '',[.-]<>+'' = '',[.-]<>+'' \<and>
   copy_if_bf ''clear: +[ - ]'' = ''+[-]'' \<and>
   copy_if_bf (copy_if_bf ''clear: +[ - ]'') = ''+[-]''"
  using filtering_idempotent [of "'',[.-]<>+''" "''clear: +[ - ]''"]
  by (simp add: copy_if_bf_def is_bf_char_def)

section \<open>The command line\<close>

text \<open>
  C8. With no positional argument (\<open>argv\<close> holds the program's name only, so
  \<open>argc < 2\<close>), \<open>main\<close> writes the usage line to the error stream and returns 1; it
  opens no file, and the standard streams are as they were, so no program ran.
\<close>

theorem usage_error:
  "length argv < 2 \<Longrightarrow> argv \<noteq> [] \<Longrightarrow>
     main argv files w =
       Some (Inr \<lparr>exit_status = 1,
                  cerr = ''Usage: '' @ hd argv @ '' [bf-file]'' @ [CHR 0x0A],
                  opened = [], streams = w\<rparr>)"
  by (cases argv) (simp_all add: main_def)

theorem usage_error_witness:
  "length [''bf''] < 2 \<and> [''bf''] \<noteq> [] \<and>
   main [''bf''] Map.empty \<lparr>stdin = [], stdout = []\<rparr> =
     Some (Inr \<lparr>exit_status = 1,
                cerr = ''Usage: bf [bf-file]'' @ [CHR 0x0A],
                opened = [], streams = \<lparr>stdin = [], stdout = []\<rparr>\<rparr>)"
  using usage_error [of "[''bf'']" Map.empty "\<lparr>stdin = [], stdout = []\<rparr>"]
  by simp

section \<open>Frame conditions of the instructions\<close>

text \<open>
  C9. The six instructions that are not jumps leave the program counter as it was. A
  jump changes nothing but the program counter, and assigns it (its target) only when
  its condition on the current cell holds. \<open>NextDataInstruction\<close> and
  \<open>PrevDataInstruction\<close> change the data counter only, so every tape cell stays.
  \<open>IncDataInstruction\<close> and \<open>DecDataInstruction\<close> keep both counters, the streams,
  the tape's length and every cell but the one at the data counter.
\<close>

theorem frame_effects:
  "(ins \<in> {NextDataInstruction, PrevDataInstruction, IncDataInstruction, DecDataInstruction,
            InInstruction, OutInstruction outp} \<longrightarrow>
      execute ins (state, w) = Inr (state', w') \<longrightarrow>
      program_counter state' = program_counter state) \<and>
   (ins \<in> {JumpZeroInstruction t, JumpNonzeroInstruction t} \<longrightarrow>
      execute ins (state, w) = Inr (state', w') \<longrightarrow>
      data_counter state' = data_counter state \<and> field state' = field state \<and> w' = w \<and>
      program_counter state' =
        (if (ins = JumpZeroInstruction t \<and> cell state = 0) \<or>
            (ins = JumpNonzeroInstruction t \<and> cell state \<noteq> 0)
         then t else program_counter state)) \<and>
   (ins \<in> {NextDataInstruction, PrevDataInstruction} \<longrightarrow>
      (\<exists>d. execute ins (state, w) = Inr (state\<lparr>data_counter := d\<rparr>, w))) \<and>
   (ins \<in> {IncDataInstruction, DecDataInstruction} \<longrightarrow>
      execute ins (state, w) = Inr (state', w') \<longrightarrow>
      data_counter state' = data_counter state \<and> program_counter state' = program_counter state \<and>
      w' = w \<and> length (field state') = length (field state) \<and>
      (\<forall>k < length (field state). k \<noteq> unat (data_counter state) \<longrightarrow>
         field state' ! k = field state ! k))"
  by (auto simp add: set_cell_def split: if_splits prod.splits)

text \<open>
  The theorem on a three-cell tape: an increment keeps the program counter 5; a
  \<open>JumpZeroInstruction 3\<close> on a zero cell sets it to 3, a \<open>JumpNonzeroInstruction 3\<close>
  on the same cell leaves it; \<open>NextDataInstruction\<close> moves the data counter only.
\<close>

theorem frame_effects_witness:
  "execute IncDataInstruction
      (\<lparr>data_counter = 1, program_counter = 5, field = [7, 8, 9]\<rparr>, \<lparr>stdin = [], stdout = []\<rparr>) =
     Inr (\<lparr>data_counter = 1, program_counter = 5, field = [7, 9, 9]\<rparr>, \<lparr>stdin = [], stdout = []\<rparr>) \<and>
   program_counter \<lparr>data_counter = 1, program_counter = 5, field = [7, 9, 9]\<rparr> = 5 \<and>
   execute (JumpZeroInstruction 3)
      (\<lparr>data_counter = 1, program_counter = 5, field = [7, 0, 9]\<rparr>, \<lparr>stdin = [], stdout = []\<rparr>) =
     Inr (\<lparr>data_counter = 1, program_counter = 3, field = [7, 0, 9]\<rparr>, \<lparr>stdin = [], stdout = []\<rparr>) \<and>
   execute (JumpNonzeroInstruction 3)
      (\<lparr>data_counter = 1, program_counter = 5, field = [7, 0, 9]\<rparr>, \<lparr>stdin = [], stdout = []\<rparr>) =
     Inr (\<lparr>data_counter = 1, program_counter = 5, field = [7, 0, 9]\<rparr>, \<lparr>stdin = [], stdout = []\<rparr>) \<and>
   execute NextDataInstruction
      (\<lparr>data_counter = 1, program_counter = 5, field = [7, 8, 9]\<rparr>, \<lparr>stdin = [], stdout = []\<rparr>) =
     Inr (\<lparr>data_counter = 2, program_counter = 5, field = [7, 8, 9]\<rparr>, \<lparr>stdin = [], stdout = []\<rparr>)"
  using frame_effects [of IncDataInstruction StdOutputter
      "\<lparr>data_counter = 1, program_counter = 5, field = [7, 8, 9]\<rparr>" "\<lparr>stdin = [], stdout = []\<rparr>"
      "\<lparr>data_counter = 1, program_counter = 5, field = [7, 9, 9]\<rparr>" "\<lparr>stdin = [], stdout = []\<rparr>" 0]
    frame_effects [of "JumpZeroInstruction 3" StdOutputter
      "\<lparr>data_counter = 1, program_counter = 5, field = [7, 0, 9]\<rparr>" "\<lparr>stdin = [], stdout = []\<rparr>"
      "\<lparr>data_counter = 1, program_counter = 3, field = [7, 0, 9]\<rparr>" "\<lparr>stdin = [], stdout = []\<rparr>" 3]
  by (simp add: in_field_def cell_def set_cell_def)

section \<open>The dispatch loop\<close>

lemma step_fetch_execute:
  "code_at code (unat (program_counter state)) = Inr (Some ins) \<Longrightarrow>
   execute ins (state, w) = Inr (state', w') \<Longrightarrow>
   step code (state, w) = Inr (state'\<lparr>program_counter := program_counter state' + 1\<rparr>, w')"
  by (simp add: step_def)

lemma interpret_code_running:
  "unat (program_counter (fst m)) < code_size code \<Longrightarrow>
   interpret_code code m =
     (case step code m of Inl e \<Rightarrow> Some (Inl e) | Inr m' \<Rightarrow> interpret_code code m')"
  by (subst interpret_code.simps) simp

lemma interpret_code_halted:
  "code_size code \<le> unat (program_counter (fst m)) \<Longrightarrow> interpret_code code m = Some (Inr m)"
  by (subst interpret_code.simps) simp

lemma interpret_code_outcome:
  assumes "interpret_code code m = Some r"
  shows "loop_outcome code m r"
proof (rule interpret_code.raw_induct [of loop_outcome, OF _ assms])
  fix interpret_code' code m r
  assume IH: "\<And>code m r. interpret_code' code m = Some r \<Longrightarrow> loop_outcome code m r"
    and eq: "(if unat (program_counter (fst m)) < code_size code
      then case step code m of Inl e \<Rightarrow> Some (Inl e)
           | Inr m' \<Rightarrow> interpret_code' code m'
      else Some (Inr m)) = Some r"
  show "loop_outcome code m r"
  proof (cases "running code m")
    case False
    with eq have r: "r = Inr m" by (simp add: running_def)
    have "\<not> running code m \<and> run_steps code 0 m = Inr m \<and>
           (\<forall>k < (0::nat). \<exists>mk. run_steps code k m = Inr mk \<and> running code mk)"
      using False by simp
    then show ?thesis unfolding loop_outcome_def r sum.case by blast
  next
    case True
    show ?thesis
    proof (cases "step code m")
      case (Inl e)
      with True eq have r: "r = Inl e" by (simp add: running_def)
      have "run_steps code 0 m = Inr m \<and> running code m \<and> step code m = Inl e \<and>
           (\<forall>k < (0::nat). \<exists>mk. run_steps code k m = Inr mk \<and> running code mk)"
        using True Inl by simp
      then show ?thesis unfolding loop_outcome_def r sum.case by blast
    next
      case (Inr m1)
      with True eq have rec: "interpret_code' code m1 = Some r" by (simp add: running_def)
      have shift: "\<forall>k < Suc n. \<exists>mk. run_steps code k m = Inr mk \<and> running code mk"
        if a: "\<forall>k < n. \<exists>mk. run_steps code k m1 = Inr mk \<and> running code mk" for n
      proof (intro allI impI)
        fix k
        assume k: "k < Suc n"
        show "\<exists>mk. run_steps code k m = Inr mk \<and> running code mk"
        proof (cases k)
          case 0
          then show ?thesis using True by simp
        next
          case (Suc k')
          then show ?thesis using a k Inr by simp
        qed
      qed
      show ?thesis
      proof (cases r)
        case r: (Inl e)
        from IH [OF rec] obtain n mk where
          "run_steps code n m1 = Inr mk" "running code mk" "step code mk = Inl e"
          "\<forall>k < n. \<exists>mk. run_steps code k m1 = Inr mk \<and> running code mk"
          unfolding loop_outcome_def r sum.case by blast
        then have "run_steps code (Suc n) m = Inr mk \<and> running code mk \<and> step code mk = Inl e \<and>
           (\<forall>k < Suc n. \<exists>mk. run_steps code k m = Inr mk \<and> running code mk)"
          using Inr shift by simp
        then show ?thesis unfolding loop_outcome_def r sum.case by blast
      next
        case r: (Inr m')
        from IH [OF rec] obtain n where
          "\<not> running code m'" "run_steps code n m1 = Inr m'"
          "\<forall>k < n. \<exists>mk. run_steps code k m1 = Inr mk \<and> running code mk"
          unfolding loop_outcome_def r sum.case by blast
        then have "\<not> running code m' \<and> run_steps code (Suc n) m = Inr m' \<and>
           (\<forall>k < Suc n. \<exists>mk. run_steps code k m = Inr mk \<and> running code mk)"
          using Inr shift by simp
        then show ?thesis unfolding loop_outcome_def r sum.case by blast
      qed
    qed
  qed
qed

lemma run_steps_interpret_code:
  "run_steps code n m = Inr m' \<Longrightarrow> \<not> running code m' \<Longrightarrow>
   (\<forall>k < n. \<exists>mk. run_steps code k m = Inr mk \<and> running code mk) \<Longrightarrow>
   interpret_code code m = Some (Inr m')"
proof (induction n arbitrary: m)
  case 0
  then show ?case by (simp add: interpret_code_halted running_def)
next
  case (Suc n)
  from Suc.prems(3) have run: "running code m" by force
  from Suc.prems(1) obtain m1 where m1: "step code m = Inr m1" and r: "run_steps code n m1 = Inr m'"
    by (auto split: sum.splits)
  have "\<forall>k < n. \<exists>mk. run_steps code k m1 = Inr mk \<and> running code mk"
  proof (intro allI impI)
    fix k assume "k < n"
    then have "Suc k < Suc n" by simp
    with Suc.prems(3) obtain mk where "run_steps code (Suc k) m = Inr mk \<and> running code mk" by blast
    then show "\<exists>mk. run_steps code k m1 = Inr mk \<and> running code mk" using m1 by simp
  qed
  with Suc.IH [OF r Suc.prems(2)] have "interpret_code code m1 = Some (Inr m')" by simp
  then show ?case using run m1 by (simp add: interpret_code_running running_def)
qed

lemma execute_not_OutOfRange: "execute ins m \<noteq> Inl OutOfRange"
  by (cases ins; cases m) (auto split: prod.splits)

text \<open>
  The one step that throws: the flyweight's fetch of a bracket for which its bracket
  map has no entry.
\<close>

lemma step_OutOfRange:
  "step code m = Inl OutOfRange \<longleftrightarrow>
     (\<exists>fw. code = Flyweight fw \<and>
        unat (program_counter (fst m)) < length (m_code fw) \<and>
        (m_code fw ! unat (program_counter (fst m)) = CHR ''['' \<or>
         m_code fw ! unat (program_counter (fst m)) = CHR '']'') \<and>
        m_bracket_map fw (unat (program_counter (fst m))) = None)"
proof (cases code)
  case (UniquePtrCode v)
  then show ?thesis
    using execute_not_OutOfRange [of _ m]
    by (auto simp add: step_def split: option.splits sum.splits)
next
  case (Flyweight fw)
  have "step code m = Inl OutOfRange \<longleftrightarrow>
      flyweight_at fw (unat (program_counter (fst m))) = Inl OutOfRange"
    using Flyweight execute_not_OutOfRange [of _ m]
    by (auto simp add: step_def split: option.splits sum.splits)
  also have "\<dots> \<longleftrightarrow>
      (unat (program_counter (fst m)) < length (m_code fw) \<and>
        (m_code fw ! unat (program_counter (fst m)) = CHR ''['' \<or>
         m_code fw ! unat (program_counter (fst m)) = CHR '']'') \<and>
        m_bracket_map fw (unat (program_counter (fst m))) = None)"
    by (auto simp add: flyweight_at_def Let_def split: option.splits if_splits)
  finally show ?thesis using Flyweight by simp
qed

lemma plus_open_ctor:
  "FlyweightCode_ctor StdOutputter ''+['' =
     Inr \<lparr>m_code = ''+['', m_bracket_map = Map.empty, m_out = StdOutputter\<rparr>"
  by (simp add: FlyweightCode_ctor_def build_bracket_map_def build_bracket_map_loop.simps)

text \<open>
  C4 as stated fails on the program that the constructor of \<^verbatim>\<open>FlyweightCode\<close> returns
  for the source \<open>+[\<close>. With the program counter at 1, below the program's length 2,
  the fetch of the \<open>[\<close> throws \<^verbatim>\<open>std::out_of_range\<close>: the step executes nothing and
  increments nothing, and the loop ends there, with the program counter still below the
  length. The same happens to the run from program counter 0, after its first step.
\<close>

theorem dispatch_loop_counterexample:
  "FlyweightCode_ctor StdOutputter ''+['' =
     Inr \<lparr>m_code = ''+['', m_bracket_map = Map.empty, m_out = StdOutputter\<rparr> \<and>
   unat (program_counter \<lparr>data_counter = 0, program_counter = 1, field = [1]\<rparr>) <
     code_size (Flyweight \<lparr>m_code = ''+['', m_bracket_map = Map.empty, m_out = StdOutputter\<rparr>) \<and>
   step (Flyweight \<lparr>m_code = ''+['', m_bracket_map = Map.empty, m_out = StdOutputter\<rparr>)
     (\<lparr>data_counter = 0, program_counter = 1, field = [1]\<rparr>, \<lparr>stdin = [], stdout = []\<rparr>) =
     Inl OutOfRange \<and>
   interpret_code (Flyweight \<lparr>m_code = ''+['', m_bracket_map = Map.empty, m_out = StdOutputter\<rparr>)
     (\<lparr>data_counter = 0, program_counter = 1, field = [1]\<rparr>, \<lparr>stdin = [], stdout = []\<rparr>) =
     Some (Inl OutOfRange) \<and>
   interpret_code (Flyweight \<lparr>m_code = ''+['', m_bracket_map = Map.empty, m_out = StdOutputter\<rparr>)
     (\<lparr>data_counter = 0, program_counter = 0, field = [0]\<rparr>, \<lparr>stdin = [], stdout = []\<rparr>) =
     Some (Inl OutOfRange)"
proof -
  let ?c = "Flyweight \<lparr>m_code = ''+['', m_bracket_map = Map.empty, m_out = StdOutputter\<rparr>"
  let ?w = "\<lparr>stdin = [], stdout = []\<rparr>"
  let ?s0 = "\<lparr>data_counter = 0, program_counter = 0, field = [0 :: uint8_t]\<rparr>"
  let ?s1 = "\<lparr>data_counter = 0, program_counter = 1, field = [1 :: uint8_t]\<rparr>"
  have size: "unat (program_counter ?s1) < code_size ?c" by simp
  have 1: "step ?c (?s0, ?w) = Inr (?s1, ?w)"
    by (simp add: step_def flyweight_at_def in_field_def cell_def set_cell_def)
  have 2: "step ?c (?s1, ?w) = Inl OutOfRange"
    by (simp add: step_def flyweight_at_def)
  have 3: "interpret_code ?c (?s1, ?w) = Some (Inl OutOfRange)"
    using 2 by (simp add: interpret_code_running)
  then have 4: "interpret_code ?c (?s0, ?w) = Some (Inl OutOfRange)"
    using 1 by (simp add: interpret_code_running)
  from plus_open_ctor size 2 3 4 show ?thesis by simp
qed

text \<open>
  C4, amended. One step of the dispatch loop is one fetch of the instruction at the
  program counter and, when the fetch yields an instruction and its \<open>execute\<close>
  returns, one \<open>execute\<close> on the state followed by one increment of the program
  counter. While the program counter is below the program's length the loop takes such
  a step and goes on from its result; when it is not, the loop returns the machine as
  it is. The loop returns a machine exactly when that machine has its program counter
  at or past the length and is reached by rounds of steps in each of which it was
  below. The only other way a run ends is an error raised inside a step, while the
  program counter is still below the length; the one exception a step can throw is the
  \<^verbatim>\<open>std::out_of_range\<close> of the flyweight's fetch at a bracket for which its bracket
  map has no entry.
\<close>

theorem dispatch_loop:
  "(code_at code (unat (program_counter state)) = Inr (Some ins) \<longrightarrow>
      execute ins (state, w) = Inr (state', w') \<longrightarrow>
      step code (state, w) = Inr (state'\<lparr>program_counter := program_counter state' + 1\<rparr>, w')) \<and>
   (running code m \<longrightarrow>
      interpret_code code m =
        (case step code m of Inl e \<Rightarrow> Some (Inl e) | Inr m1 \<Rightarrow> interpret_code code m1)) \<and>
   (\<not> running code m \<longrightarrow> interpret_code code m = Some (Inr m)) \<and>
   (interpret_code code m = Some (Inr m') \<longleftrightarrow>
      \<not> running code m' \<and>
      (\<exists>n. run_steps code n m = Inr m' \<and>
         (\<forall>k < n. \<exists>mk. run_steps code k m = Inr mk \<and> running code mk))) \<and>
   (interpret_code code m = Some (Inl e) \<longrightarrow>
      (\<exists>n mk. run_steps code n m = Inr mk \<and> running code mk \<and> step code mk = Inl e)) \<and>
   (step code m = Inl OutOfRange \<longleftrightarrow>
      (\<exists>fw. code = Flyweight fw \<and>
         unat (program_counter (fst m)) < length (m_code fw) \<and>
         (m_code fw ! unat (program_counter (fst m)) = CHR ''['' \<or>
          m_code fw ! unat (program_counter (fst m)) = CHR '']'') \<and>
         m_bracket_map fw (unat (program_counter (fst m))) = None))"
proof (intro conjI)
  show "code_at code (unat (program_counter state)) = Inr (Some ins) \<longrightarrow>
      execute ins (state, w) = Inr (state', w') \<longrightarrow>
      step code (state, w) = Inr (state'\<lparr>program_counter := program_counter state' + 1\<rparr>, w')"
    by (simp add: step_fetch_execute)
  show "running code m \<longrightarrow>
      interpret_code code m =
        (case step code m of Inl e \<Rightarrow> Some (Inl e) | Inr m1 \<Rightarrow> interpret_code code m1)"
    by (simp add: interpret_code_running running_def)
  show "\<not> running code m \<longrightarrow> interpret_code code m = Some (Inr m)"
    by (simp add: interpret_code_halted running_def)
  show "interpret_code code m = Some (Inr m') \<longleftrightarrow>
      \<not> running code m' \<and>
      (\<exists>n. run_steps code n m = Inr m' \<and>
         (\<forall>k < n. \<exists>mk. run_steps code k m = Inr mk \<and> running code mk))"
  proof
    assume "interpret_code code m = Some (Inr m')"
    from interpret_code_outcome [OF this] show "\<not> running code m' \<and>
      (\<exists>n. run_steps code n m = Inr m' \<and>
         (\<forall>k < n. \<exists>mk. run_steps code k m = Inr mk \<and> running code mk))"
      unfolding loop_outcome_def sum.case .
  next
    assume "\<not> running code m' \<and>
      (\<exists>n. run_steps code n m = Inr m' \<and>
         (\<forall>k < n. \<exists>mk. run_steps code k m = Inr mk \<and> running code mk))"
    then show "interpret_code code m = Some (Inr m')"
      using run_steps_interpret_code by blast
  qed
  show "interpret_code code m = Some (Inl e) \<longrightarrow>
      (\<exists>n mk. run_steps code n m = Inr mk \<and> running code mk \<and> step code mk = Inl e)"
  proof
    assume "interpret_code code m = Some (Inl e)"
    from interpret_code_outcome [OF this] show
      "\<exists>n mk. run_steps code n m = Inr mk \<and> running code mk \<and> step code mk = Inl e"
      unfolding loop_outcome_def sum.case by blast
  qed
  show "(step code m = Inl OutOfRange \<longleftrightarrow>
        (\<exists>fw. code = Flyweight fw \<and>
           unat (program_counter (fst m)) < length (m_code fw) \<and>
           (m_code fw ! unat (program_counter (fst m)) = CHR ''['' \<or>
            m_code fw ! unat (program_counter (fst m)) = CHR '']'') \<and>
           m_bracket_map fw (unat (program_counter (fst m))) = None))"
    by (rule step_OutOfRange)
qed

text \<open>
  The theorem on the one-instruction program \<open>+\<close> and a one-cell tape: the loop is
  running at 0, the step increments the cell and the counter, the loop has halted at 1.
  And on the flyweight of \<open>+[\<close> at program counter 1: the loop is running, the
  fetch finds a \<open>[\<close> without an entry, and the run ends with the exception.
\<close>

theorem dispatch_loop_witness:
  "running (UniquePtrCode [Some IncDataInstruction])
     (\<lparr>data_counter = 0, program_counter = 0, field = [0]\<rparr>, \<lparr>stdin = [], stdout = []\<rparr>) \<and>
   step (UniquePtrCode [Some IncDataInstruction])
     (\<lparr>data_counter = 0, program_counter = 0, field = [0]\<rparr>, \<lparr>stdin = [], stdout = []\<rparr>) =
     Inr (\<lparr>data_counter = 0, program_counter = 1, field = [1]\<rparr>, \<lparr>stdin = [], stdout = []\<rparr>) \<and>
   \<not> running (UniquePtrCode [Some IncDataInstruction])
     (\<lparr>data_counter = 0, program_counter = 1, field = [1]\<rparr>, \<lparr>stdin = [], stdout = []\<rparr>) \<and>
   interpret_code (UniquePtrCode [Some IncDataInstruction])
     (\<lparr>data_counter = 0, program_counter = 0, field = [0]\<rparr>, \<lparr>stdin = [], stdout = []\<rparr>) =
     Some (Inr (\<lparr>data_counter = 0, program_counter = 1, field = [1]\<rparr>, \<lparr>stdin = [], stdout = []\<rparr>)) \<and>
   running (Flyweight \<lparr>m_code = ''+['', m_bracket_map = Map.empty, m_out = StdOutputter\<rparr>)
     (\<lparr>data_counter = 0, program_counter = 1, field = [1]\<rparr>, \<lparr>stdin = [], stdout = []\<rparr>) \<and>
   step (Flyweight \<lparr>m_code = ''+['', m_bracket_map = Map.empty, m_out = StdOutputter\<rparr>)
     (\<lparr>data_counter = 0, program_counter = 1, field = [1]\<rparr>, \<lparr>stdin = [], stdout = []\<rparr>) =
     Inl OutOfRange \<and>
   interpret_code (Flyweight \<lparr>m_code = ''+['', m_bracket_map = Map.empty, m_out = StdOutputter\<rparr>)
     (\<lparr>data_counter = 0, program_counter = 1, field = [1]\<rparr>, \<lparr>stdin = [], stdout = []\<rparr>) =
     Some (Inl OutOfRange)"
  using dispatch_loop [of "UniquePtrCode [Some IncDataInstruction]"
      "\<lparr>data_counter = 0, program_counter = 0, field = [0]\<rparr>" IncDataInstruction
      "\<lparr>stdin = [], stdout = []\<rparr>" "\<lparr>data_counter = 0, program_counter = 0, field = [1]\<rparr>"
      "\<lparr>stdin = [], stdout = []\<rparr>"
      "(\<lparr>data_counter = 0, program_counter = 0, field = [0]\<rparr>, \<lparr>stdin = [], stdout = []\<rparr>)"]
    dispatch_loop [of "UniquePtrCode [Some IncDataInstruction]" _ _ _ _ _
      "(\<lparr>data_counter = 0, program_counter = 1, field = [1]\<rparr>, \<lparr>stdin = [], stdout = []\<rparr>)"]
    dispatch_loop [of "Flyweight \<lparr>m_code = ''+['', m_bracket_map = Map.empty, m_out = StdOutputter\<rparr>"
      _ _ _ _ _
      "(\<lparr>data_counter = 0, program_counter = 1, field = [1]\<rparr>, \<lparr>stdin = [], stdout = []\<rparr>)"]
  by (simp add: running_def in_field_def cell_def set_cell_def)

section \<open>Jumps\<close>

lemma unat_succ_index:
  "unat (t :: size_t) < n \<Longrightarrow> n < 2 ^ 64 \<Longrightarrow> unat (t + 1) = unat t + 1"
  by (simp add: unat_word_ariths)

text \<open>
  C3. On every state whose data counter is inside the tape, a step that fetches a
  \<open>JumpZeroInstruction t\<close> continues at \<open>t + 1\<close> when the current cell is 0, and a
  step that fetches a \<open>JumpNonzeroInstruction t\<close> continues at \<open>t + 1\<close> when the
  cell is not 0; otherwise \<open>execute\<close> returns the state as it is and the step
  continues at the next index. For a target inside a program (whose length fits
  \<^verbatim>\<open>size_t\<close>) the 64-bit \<open>t + 1\<close> is the index after \<open>t\<close>.
\<close>

theorem jump_resumes_after_target:
  "in_field state \<Longrightarrow>
   (code_at code (unat (program_counter state)) = Inr (Some (JumpZeroInstruction t)) \<longrightarrow>
      step code (state, w) =
        Inr (state\<lparr>program_counter :=
               (if cell state = 0 then t + 1 else program_counter state + 1)\<rparr>, w)) \<and>
   (code_at code (unat (program_counter state)) = Inr (Some (JumpNonzeroInstruction t)) \<longrightarrow>
      step code (state, w) =
        Inr (state\<lparr>program_counter :=
               (if cell state \<noteq> 0 then t + 1 else program_counter state + 1)\<rparr>, w)) \<and>
   (cell state \<noteq> 0 \<longrightarrow> execute (JumpZeroInstruction t) (state, w) = Inr (state, w)) \<and>
   (cell state = 0 \<longrightarrow> execute (JumpNonzeroInstruction t) (state, w) = Inr (state, w)) \<and>
   (unat t < code_size code \<longrightarrow> code_size code < 2 ^ 64 \<longrightarrow> unat (t + 1) = unat t + 1)"
  by (auto simp add: step_def unat_succ_index)

text \<open>
  The theorem on the program \<open>[]\<close>: the \<open>[\<close> on a zero cell continues at 2, the
  \<open>]\<close> on a nonzero cell continues at 1, and the \<open>[\<close> on a nonzero cell falls
  through to 1.
\<close>

theorem jump_resumes_after_target_witness:
  "in_field \<lparr>data_counter = 0, program_counter = 0, field = [0]\<rparr> \<and>
   step (UniquePtrCode [Some (JumpZeroInstruction 1), Some (JumpNonzeroInstruction 0)])
     (\<lparr>data_counter = 0, program_counter = 0, field = [0]\<rparr>, \<lparr>stdin = [], stdout = []\<rparr>) =
     Inr (\<lparr>data_counter = 0, program_counter = 2, field = [0]\<rparr>, \<lparr>stdin = [], stdout = []\<rparr>) \<and>
   in_field \<lparr>data_counter = 0, program_counter = 1, field = [5]\<rparr> \<and>
   step (UniquePtrCode [Some (JumpZeroInstruction 1), Some (JumpNonzeroInstruction 0)])
     (\<lparr>data_counter = 0, program_counter = 1, field = [5]\<rparr>, \<lparr>stdin = [], stdout = []\<rparr>) =
     Inr (\<lparr>data_counter = 0, program_counter = 1, field = [5]\<rparr>, \<lparr>stdin = [], stdout = []\<rparr>) \<and>
   step (UniquePtrCode [Some (JumpZeroInstruction 1), Some (JumpNonzeroInstruction 0)])
     (\<lparr>data_counter = 0, program_counter = 0, field = [5]\<rparr>, \<lparr>stdin = [], stdout = []\<rparr>) =
     Inr (\<lparr>data_counter = 0, program_counter = 1, field = [5]\<rparr>, \<lparr>stdin = [], stdout = []\<rparr>)"
  using jump_resumes_after_target [of "\<lparr>data_counter = 0, program_counter = 0, field = [0]\<rparr>"
      "UniquePtrCode [Some (JumpZeroInstruction 1), Some (JumpNonzeroInstruction 0)]" 1
      "\<lparr>stdin = [], stdout = []\<rparr>"]
    jump_resumes_after_target [of "\<lparr>data_counter = 0, program_counter = 1, field = [5]\<rparr>"
      "UniquePtrCode [Some (JumpZeroInstruction 1), Some (JumpNonzeroInstruction 0)]" 0
      "\<lparr>stdin = [], stdout = []\<rparr>"]
    jump_resumes_after_target [of "\<lparr>data_counter = 0, program_counter = 0, field = [5]\<rparr>"
      "UniquePtrCode [Some (JumpZeroInstruction 1), Some (JumpNonzeroInstruction 0)]" 1
      "\<lparr>stdin = [], stdout = []\<rparr>"]
  by (simp add: in_field_def cell_def)

section \<open>The program \<open>+[-]\<close>\<close>

lemma build_plus_loop:
  "build_bracket_map ''+[-]'' =
     Inr (Map.empty(1 \<mapsto> JumpZeroInstruction 3, 3 \<mapsto> JumpNonzeroInstruction 1))"
  by (simp add: build_bracket_map_def build_bracket_map_loop.simps numeral_3_eq_3)

lemma parse_plus_loop:
  "parse_code ''+[-]'' =
     Inr [Some IncDataInstruction, Some (JumpZeroInstruction 3), Some DecDataInstruction,
          Some (JumpNonzeroInstruction 1)]"
  by (simp add: parse_code_def parse_code_loop.simps)

text \<open>
  C6. The program \<open>+[-]\<close>, built as \<open>main\<close> builds it and run from the state
  \<open>main\<close> creates, returns: the loop halts with the program counter at 4, the data
  counter at 0 and \<open>field[0] = 0\<close>.
\<close>

theorem plus_loop_terminates:
  "\<exists>code state'.
     FlyweightCode_ctor StdOutputter ''+[-]'' = Inr code \<and>
     interpret_code (Flyweight code) (initial_state, w) = Some (Inr (state', w)) \<and>
     field state' ! 0 = 0 \<and> data_counter state' = 0 \<and> program_counter state' = 4"
proof -
  let ?code = "\<lparr>m_code = ''+[-]'',
      m_bracket_map = Map.empty(1 \<mapsto> JumpZeroInstruction 3, 3 \<mapsto> JumpNonzeroInstruction 1),
      m_out = StdOutputter\<rparr>"
  let ?tape = "replicate 0x2000 (0 :: uint8_t)"
  let ?s1 = "\<lparr>data_counter = 0, program_counter = 1, field = ?tape[0 := 1]\<rparr>"
  let ?s2 = "\<lparr>data_counter = 0, program_counter = 2, field = ?tape[0 := 1]\<rparr>"
  let ?s3 = "\<lparr>data_counter = 0, program_counter = 3, field = ?tape[0 := 0]\<rparr>"
  let ?s4 = "\<lparr>data_counter = 0, program_counter = 4, field = ?tape[0 := 0]\<rparr>"
  have ctor: "FlyweightCode_ctor StdOutputter ''+[-]'' = Inr ?code"
    by (simp add: FlyweightCode_ctor_def build_plus_loop)
  have 1: "step (Flyweight ?code) (initial_state, w) = Inr (?s1, w)"
    by (simp add: step_def flyweight_at_def initial_state_def in_field_def cell_def set_cell_def)
  have 2: "step (Flyweight ?code) (?s1, w) = Inr (?s2, w)"
    by (simp add: step_def flyweight_at_def in_field_def cell_def set_cell_def)
  have 3: "step (Flyweight ?code) (?s2, w) = Inr (?s3, w)"
    by (simp add: step_def flyweight_at_def in_field_def cell_def set_cell_def)
  have 4: "step (Flyweight ?code) (?s3, w) = Inr (?s4, w)"
    by (simp add: step_def flyweight_at_def in_field_def cell_def set_cell_def)
  have "interpret_code (Flyweight ?code) (?s4, w) = Some (Inr (?s4, w))"
    by (simp add: interpret_code_halted)
  then have "interpret_code (Flyweight ?code) (?s3, w) = Some (Inr (?s4, w))"
    using 4 by (simp add: interpret_code_running)
  then have "interpret_code (Flyweight ?code) (?s2, w) = Some (Inr (?s4, w))"
    using 3 by (simp add: interpret_code_running)
  then have "interpret_code (Flyweight ?code) (?s1, w) = Some (Inr (?s4, w))"
    using 2 by (simp add: interpret_code_running)
  then have "interpret_code (Flyweight ?code) (initial_state, w) = Some (Inr (?s4, w))"
    using 1 by (simp add: interpret_code_running initial_state_def)
  moreover have "field ?s4 ! 0 = 0" by simp
  ultimately show ?thesis using ctor by (intro exI [of _ ?code] exI [of _ ?s4]) simp
qed

section \<open>Balanced text and matching brackets\<close>

lemma balanced_from_append:
  "balanced_from a xs \<Longrightarrow> balanced_from (a + d) (xs @ ys) = balanced_from d ys"
proof (induction xs arbitrary: a)
  case Nil
  then show ?case by simp
next
  case (Cons c xs)
  show ?case
  proof (cases "c = CHR ''[''")
    case True
    with Cons.prems have "balanced_from (a + 1) xs" by simp
    from Cons.IH [OF this] show ?thesis using True by (simp add: ac_simps)
  next
    case False
    show ?thesis
    proof (cases "c = CHR '']''")
      case True
      with Cons.prems have a: "0 < a" and "balanced_from (a - 1) xs" by simp_all
      from Cons.IH [OF this(2)] have "balanced_from (a - 1 + d) (xs @ ys) = balanced_from d ys" .
      moreover have "a - 1 + d = a + d - 1" using a by simp
      ultimately show ?thesis using True a by simp
    next
      case c: False
      with False Cons.prems have "balanced_from a xs" by simp
      from Cons.IH [OF this] show ?thesis using False c by simp
    qed
  qed
qed

lemma balanced_append: "balanced xs \<Longrightarrow> balanced ys \<Longrightarrow> balanced (xs @ ys)"
  using balanced_from_append [of 0 xs 0 ys] by (simp add: balanced_def)

lemma balanced_enclose:
  "balanced xs \<Longrightarrow> balanced (CHR ''['' # xs @ [CHR '']''])"
  using balanced_from_append [of 0 xs 1 "[CHR '']'']"] by (simp add: balanced_def)

lemma not_balanced_close:
  "balanced xs \<Longrightarrow> \<not> balanced (xs @ CHR '']'' # ys)"
  using balanced_from_append [of 0 xs 0 "CHR '']'' # ys"] by (simp add: balanced_def)

lemma not_balanced_from_open:
  "balanced ts \<Longrightarrow> \<not> balanced_from d (xs @ CHR ''['' # ts)"
proof (induction xs arbitrary: d)
  case Nil
  from balanced_from_append [of 0 ts "d + 1" "[]"] Nil show ?case by (simp add: balanced_def)
next
  case (Cons c xs)
  then show ?case by simp
qed

lemma not_balanced_open:
  "balanced ts \<Longrightarrow> \<not> balanced (xs @ CHR ''['' # ts)"
  by (simp add: balanced_def [of "xs @ CHR ''['' # ts"] not_balanced_from_open)

lemma balanced_from_snoc_other:
  "c \<noteq> CHR ''['' \<Longrightarrow> c \<noteq> CHR '']'' \<Longrightarrow> balanced_from d (xs @ [c]) = balanced_from d xs"
  by (induction xs arbitrary: d) simp_all

lemma balanced_snoc_other:
  "c \<noteq> CHR ''['' \<Longrightarrow> c \<noteq> CHR '']'' \<Longrightarrow> balanced (xs @ [c]) = balanced xs"
  by (simp add: balanced_def balanced_from_snoc_other)

lemma segment_empty: "segment code a a = []"
  by (simp add: segment_def)

lemma segment_whole: "segment code 0 (length code) = code"
  by (simp add: segment_def)

lemma segment_split:
  "a \<le> j \<Longrightarrow> j < i \<Longrightarrow> i \<le> length code \<Longrightarrow>
   segment code a i = segment code a j @ code ! j # segment code (j + 1) i"
proof -
  assume a: "a \<le> j" and j: "j < i" and i: "i \<le> length code"
  have "i - a = (j - a) + (i - j)" using a j by simp
  then have "take (i - a) (drop a code) =
      take (j - a) (drop a code) @ take (i - j) (drop (j - a) (drop a code))"
    by (simp only: take_add)
  moreover have "drop (j - a) (drop a code) = drop j code" using a by simp
  moreover have "drop j code = code ! j # drop (j + 1) code"
    using j i by (simp add: Cons_nth_drop_Suc)
  moreover have "i - j = Suc (i - (j + 1))" using j by simp
  ultimately show ?thesis by (simp add: segment_def)
qed

lemma segment_snoc:
  "a \<le> i \<Longrightarrow> i < length code \<Longrightarrow> segment code a (i + 1) = segment code a i @ [code ! i]"
proof -
  assume a: "a \<le> i" and i: "i < length code"
  have "i + 1 - a = Suc (i - a)" using a by simp
  moreover have "i - a < length (drop a code)" using a i by simp
  moreover have "drop a code ! (i - a) = code ! i" using a i by simp
  ultimately show ?thesis by (simp add: segment_def take_Suc_conv_app_nth del: nth_drop)
qed

lemma matches_unique_close:
  assumes "matches code a b" and "matches code a b'"
  shows "b = b'"
proof -
  have aux: False if m1: "matches code a b" and m2: "matches code a b'" and lt: "b < b'" for b b'
  proof -
    from m1 m2 lt have "segment code (a + 1) b' =
        segment code (a + 1) b @ code ! b # segment code (b + 1) b'"
      by (intro segment_split) (simp_all add: matches_def)
    moreover from m1 have "code ! b = CHR '']''" "balanced (segment code (a + 1) b)"
      by (simp_all add: matches_def)
    ultimately have "\<not> balanced (segment code (a + 1) b')" by (simp add: not_balanced_close)
    with m2 show False by (simp add: matches_def)
  qed
  show ?thesis using aux [of b b'] aux [of b' b] assms by (cases b b' rule: linorder_cases) auto
qed

lemma matches_unique_open:
  assumes "matches code a b" and "matches code a' b"
  shows "a = a'"
proof -
  have aux: False if m1: "matches code a b" and m2: "matches code a' b" and lt: "a < a'" for a a'
  proof -
    from m1 m2 lt have "segment code (a + 1) b =
        segment code (a + 1) a' @ code ! a' # segment code (a' + 1) b"
      by (intro segment_split) (simp_all add: matches_def)
    moreover from m2 have "code ! a' = CHR ''[''" "balanced (segment code (a' + 1) b)"
      by (simp_all add: matches_def)
    ultimately have "\<not> balanced (segment code (a + 1) b)" by (simp add: not_balanced_open)
    with m1 show False by (simp add: matches_def)
  qed
  show ?thesis using aux [of a a'] aux [of a' a] assms by (cases a a' rule: linorder_cases) auto
qed

section \<open>The bracket stack\<close>

lemma open_segments_brackets:
  "open_segments code i st \<Longrightarrow> k \<in> set st \<Longrightarrow> k < i \<and> code ! k = CHR ''[''"
  by (induction st arbitrary: i) (auto, force+)

text \<open>The top segment grows by a character that is not a bracket.\<close>

lemma open_segments_other:
  assumes "open_segments code i st" and "i < length code"
    and "code ! i \<noteq> CHR ''[''" and "code ! i \<noteq> CHR '']''"
  shows "open_segments code (i + 1) st"
proof -
  have grow: "balanced (segment code a (i + 1))" if "a \<le> i" "balanced (segment code a i)" for a
    using that assms segment_snoc [of a i code] by (simp add: balanced_snoc_other)
  show ?thesis
  proof (cases st)
    case Nil
    with assms grow [of 0] show ?thesis by simp
  next
    case (Cons k rest)
    with assms grow [of "k + 1"] show ?thesis by simp
  qed
qed

lemma open_segments_push:
  assumes "open_segments code i st" and "code ! i = CHR ''[''"
  shows "open_segments code (i + 1) (i # st)"
  using assms by (simp add: segment_empty balanced_def)

lemma open_segments_pop:
  assumes "open_segments code i (j # st)" and "i < length code" and "code ! i = CHR '']''"
  shows "open_segments code (i + 1) st"
proof -
  from assms have j: "j < i" "code ! j = CHR ''[''" "balanced (segment code (j + 1) i)"
    and rest: "open_segments code j st" by simp_all
  have grow: "balanced (segment code a (i + 1))" if "a \<le> j" "balanced (segment code a j)" for a
  proof -
    have "segment code a (i + 1) = segment code a i @ [code ! i]"
      using that j assms(2) by (intro segment_snoc) simp_all
    also have "segment code a i = segment code a j @ code ! j # segment code (j + 1) i"
      using that j assms(2) by (intro segment_split) simp_all
    finally have "segment code a (i + 1) =
        segment code a j @ (CHR ''['' # segment code (j + 1) i @ [CHR '']''])"
      using j assms(3) by simp
    then show ?thesis using that(2) j(3) by (simp add: balanced_append balanced_enclose)
  qed
  show ?thesis
  proof (cases st)
    case Nil
    with rest grow [of 0] show ?thesis by simp
  next
    case (Cons k rest')
    with rest grow [of "k + 1"] j show ?thesis by simp
  qed
qed

lemma open_segments_matches:
  assumes "open_segments code i (j # st)" and "i < length code" and "code ! i = CHR '']''"
  shows "matches code j i"
  using assms by (simp add: matches_def)

lemma open_segments_empty_close:
  assumes "open_segments code i []" and "i < length code" and "code ! i = CHR '']''"
  shows "unmatched_close code i" and "\<not> balanced code"
proof -
  from assms have b: "balanced (segment code 0 i)" by simp
  show "unmatched_close code i"
    unfolding unmatched_close_def
  proof (intro conjI allI impI)
    fix a assume "a < i"
    show "\<not> matches code a i"
    proof
      assume m: "matches code a i"
      then have "segment code 0 i = segment code 0 a @ code ! a # segment code (a + 1) i"
        using assms(2) by (intro segment_split) (simp_all add: matches_def)
      with m have "\<not> balanced (segment code 0 i)" by (simp add: matches_def not_balanced_open)
      with b show False by simp
    qed
  qed (use assms in simp_all)
  have "segment code 0 (length code) = segment code 0 i @ code ! i # segment code (i + 1) (length code)"
    using assms(2) by (intro segment_split) simp_all
  then have "code = segment code 0 i @ CHR '']'' # segment code (i + 1) (length code)"
    using assms(3) by (simp add: segment_whole)
  then show "\<not> balanced code" using not_balanced_close [OF b] by metis
qed

lemma open_segments_final:
  assumes "open_segments code (length code) st" and "balanced code"
  shows "st = []"
proof (cases st)
  case Nil
  then show ?thesis .
next
  case (Cons k rest)
  with assms have k: "k < length code" "code ! k = CHR ''[''"
    "balanced (segment code (k + 1) (length code))" by simp_all
  have "segment code 0 (length code) = segment code 0 k @ code ! k # segment code (k + 1) (length code)"
    using k(1) by (intro segment_split) simp_all
  then have "code = segment code 0 k @ CHR ''['' # segment code (k + 1) (length code)"
    using k(2) by (simp add: segment_whole)
  then have "\<not> balanced code" using not_balanced_open [OF k(3)] by metis
  with assms show ?thesis by simp
qed

section \<open>The invariant of the bracket map\<close>

lemma bracket_inv_initial: "bracket_inv code 0 [] Map.empty"
  by (simp add: bracket_inv_def segment_empty balanced_def)

lemma bracket_inv_push:
  assumes "bracket_inv code i st bm" and "i < length code" and "code ! i = CHR ''[''"
  shows "bracket_inv code (i + 1) (i # st) bm"
  unfolding bracket_inv_def
proof (intro conjI allI impI)
  show "i + 1 \<le> length code" using assms by simp
  show "open_segments code (i + 1) (i # st)"
    using assms by (intro open_segments_push) (simp_all add: bracket_inv_def)
next
  fix a b assume m: "matches code a b \<and> b < i + 1"
  with assms(3) have "b < i" by (cases "b = i") (auto simp add: matches_def)
  with m assms(1) show "bm a = Some (JumpZeroInstruction (of_nat b))"
    and "bm b = Some (JumpNonzeroInstruction (of_nat a))"
    by (simp_all add: bracket_inv_def)
next
  fix k assume "bm k \<noteq> None"
  with assms(1) obtain a b where "matches code a b" "b < i" "k = a \<or> k = b"
    unfolding bracket_inv_def by blast
  then show "\<exists>a b. matches code a b \<and> b < i + 1 \<and> (k = a \<or> k = b)"
    by (intro exI [of _ a] exI [of _ b]) simp
next
  fix k assume k: "k < i + 1" "code ! k = CHR ''['' \<or> code ! k = CHR '']''"
  show "k \<in> set (i # st) \<or> bm k \<noteq> None"
  proof (cases "k = i")
    case True
    then show ?thesis by simp
  next
    case False
    with k have "k < i" by simp
    with k(2) assms(1) show ?thesis unfolding bracket_inv_def by auto
  qed
qed

lemma bracket_inv_other:
  assumes "bracket_inv code i st bm" and "i < length code"
    and "code ! i \<noteq> CHR ''[''" and "code ! i \<noteq> CHR '']''"
  shows "bracket_inv code (i + 1) st bm"
  unfolding bracket_inv_def
proof (intro conjI allI impI)
  show "i + 1 \<le> length code" using assms by simp
  show "open_segments code (i + 1) st"
    using assms by (intro open_segments_other) (simp_all add: bracket_inv_def)
next
  fix a b assume m: "matches code a b \<and> b < i + 1"
  with assms(4) have "b < i" by (cases "b = i") (auto simp add: matches_def)
  with m assms(1) show "bm a = Some (JumpZeroInstruction (of_nat b))"
    and "bm b = Some (JumpNonzeroInstruction (of_nat a))"
    by (simp_all add: bracket_inv_def)
next
  fix k assume "bm k \<noteq> None"
  with assms(1) obtain a b where "matches code a b" "b < i" "k = a \<or> k = b"
    unfolding bracket_inv_def by blast
  then show "\<exists>a b. matches code a b \<and> b < i + 1 \<and> (k = a \<or> k = b)"
    by (intro exI [of _ a] exI [of _ b]) simp
next
  fix k assume k: "k < i + 1" "code ! k = CHR ''['' \<or> code ! k = CHR '']''"
  with assms(3,4) have "k < i" by (cases "k = i") auto
  with k(2) assms(1) show "k \<in> set st \<or> bm k \<noteq> None" unfolding bracket_inv_def by auto
qed

lemma bracket_inv_pop:
  assumes "bracket_inv code i (j # st) bm" and "i < length code" and "code ! i = CHR '']''"
  shows "bracket_inv code (i + 1) st
           (bm(j \<mapsto> JumpZeroInstruction (of_nat i), i \<mapsto> JumpNonzeroInstruction (of_nat j)))"
    (is "bracket_inv code (i + 1) st ?bm")
  unfolding bracket_inv_def
proof (intro conjI allI impI)
  from assms(1) have seg: "open_segments code i (j # st)" by (simp add: bracket_inv_def)
  then have j: "j < i" "code ! j = CHR ''[''" by simp_all
  have ji: "matches code j i" using seg assms(2,3) by (rule open_segments_matches)
  show "i + 1 \<le> length code" using assms by simp
  show "open_segments code (i + 1) st" using seg assms(2,3) by (rule open_segments_pop)
  {
    fix a b assume m: "matches code a b \<and> b < i + 1"
    show "?bm a = Some (JumpZeroInstruction (of_nat b))"
    proof (cases "b = i")
      case True
      with m ji have "a = j" using matches_unique_open by blast
      with True j show ?thesis by simp
    next
      case False
      with m have b: "b < i" by simp
      with m ji have "a \<noteq> j" using matches_unique_close by blast
      moreover from m b have "a \<noteq> i" by (simp add: matches_def)
      ultimately show ?thesis using m b assms(1) by (simp add: bracket_inv_def)
    qed
    show "?bm b = Some (JumpNonzeroInstruction (of_nat a))"
    proof (cases "b = i")
      case True
      with m ji have "a = j" using matches_unique_open by blast
      with True show ?thesis by simp
    next
      case False
      with m have b: "b < i" by simp
      moreover from m j have "b \<noteq> j" by (auto simp add: matches_def)
      ultimately show ?thesis using m False assms(1) by (simp add: bracket_inv_def)
    qed
  }
  {
    fix k assume k: "?bm k \<noteq> None"
    show "\<exists>a b. matches code a b \<and> b < i + 1 \<and> (k = a \<or> k = b)"
    proof (cases "k = i \<or> k = j")
      case True
      with ji show ?thesis by (intro exI [of _ j] exI [of _ i]) auto
    next
      case False
      with k have "bm k \<noteq> None" by simp
      with assms(1) obtain a b where "matches code a b" "b < i" "k = a \<or> k = b"
        unfolding bracket_inv_def by blast
      then show ?thesis by (intro exI [of _ a] exI [of _ b]) simp
    qed
  }
  {
    fix k assume k: "k < i + 1" "code ! k = CHR ''['' \<or> code ! k = CHR '']''"
    show "k \<in> set st \<or> ?bm k \<noteq> None"
    proof (cases "k = i \<or> k = j")
      case True
      then show ?thesis by auto
    next
      case False
      with k have "k < i" by simp
      with k(2) assms(1) have "k \<in> set (j # st) \<or> bm k \<noteq> None"
        unfolding bracket_inv_def by blast
      with False show ?thesis by auto
    qed
  }
qed

lemma build_bracket_map_loop_inv:
  "bracket_inv code i st bm \<Longrightarrow>
   (case build_bracket_map_loop code i st bm of
      Inl e \<Rightarrow> e = UndefinedBehaviour \<and> \<not> balanced code \<and> (\<exists>j. unmatched_close code j)
    | Inr bm' \<Rightarrow> \<exists>st'. bracket_inv code (length code) st' bm')"
proof (induction code i st bm rule: build_bracket_map_loop.induct)
  case (1 code i st bm)
  show ?case
  proof (cases "i < length code")
    case False
    with "1.prems" have "i = length code" by (simp add: bracket_inv_def)
    moreover from False have "build_bracket_map_loop code i st bm = Inr bm"
      by (subst build_bracket_map_loop.simps) simp
    ultimately show ?thesis using "1.prems" by auto
  next
    case i: True
    show ?thesis
    proof (cases "CHR ''['' = code ! i")
      case True
      have eq: "build_bracket_map_loop code i st bm =
          build_bracket_map_loop code (i + 1) (i # st) bm"
        using i True by (subst build_bracket_map_loop.simps) simp
      from "1.prems" i True have "bracket_inv code (i + 1) (i # st) bm"
        by (intro bracket_inv_push) simp_all
      from "1.IH"(1) [OF i True this] show ?thesis by (simp only: eq)
    next
      case no: False
      show ?thesis
      proof (cases "CHR '']'' = code ! i")
        case False
        have eq: "build_bracket_map_loop code i st bm =
            build_bracket_map_loop code (i + 1) st bm"
          using i no False by (subst build_bracket_map_loop.simps) simp
        from "1.prems" i no False have "bracket_inv code (i + 1) st bm"
          by (intro bracket_inv_other) auto
        from "1.IH"(3) [OF i no False this] show ?thesis by (simp only: eq)
      next
        case True
        show ?thesis
        proof (cases st)
          case Nil
          have eq: "build_bracket_map_loop code i st bm = Inl UndefinedBehaviour"
            using i no True Nil by (subst build_bracket_map_loop.simps) simp
          from Nil "1.prems" have "open_segments code i []" by (simp add: bracket_inv_def)
          from open_segments_empty_close [OF this i] True
          have "unmatched_close code i" "\<not> balanced code" by simp_all
          then show ?thesis unfolding eq by auto
        next
          case (Cons j rest)
          have eq: "build_bracket_map_loop code i st bm =
              build_bracket_map_loop code (i + 1) rest
                (bm(j \<mapsto> JumpZeroInstruction (of_nat i), i \<mapsto> JumpNonzeroInstruction (of_nat j)))"
            using i no True Cons by (subst build_bracket_map_loop.simps) (simp del: fun_upd_apply)
          from Cons "1.prems" i True have "bracket_inv code (i + 1) rest
             (bm(j \<mapsto> JumpZeroInstruction (of_nat i), i \<mapsto> JumpNonzeroInstruction (of_nat j)))"
            by (intro bracket_inv_pop) simp_all
          from "1.IH"(2) [OF i no True Cons this] show ?thesis by (simp only: eq)
        qed
      qed
    qed
  qed
qed

lemma build_bracket_map_cases:
  "(build_bracket_map code = Inl UndefinedBehaviour \<and> \<not> balanced code \<and>
      (\<exists>j. unmatched_close code j)) \<or>
   (\<exists>bm st. build_bracket_map code = Inr bm \<and> bracket_inv code (length code) st bm)"
  using build_bracket_map_loop_inv [OF bracket_inv_initial, of code]
  by (auto simp add: build_bracket_map_def split: sum.splits)

text \<open>What the invariant says when the scan is over.\<close>

lemma bracket_inv_final_close:
  assumes "bracket_inv code (length code) st bm" and "j < length code" and "code ! j = CHR '']''"
  shows "\<exists>i. matches code i j \<and> bm j = Some (JumpNonzeroInstruction (of_nat i))"
proof -
  from assms(1) have seg: "open_segments code (length code) st" by (simp add: bracket_inv_def)
  have "j \<notin> set st" using open_segments_brackets [OF seg, of j] assms(3) by auto
  with assms have "bm j \<noteq> None" unfolding bracket_inv_def by blast
  with assms(1) obtain a b where ab: "matches code a b" "j = a \<or> j = b"
    unfolding bracket_inv_def by blast
  with assms(3) have "j = b" by (auto simp add: matches_def)
  with ab assms(1) show ?thesis unfolding bracket_inv_def matches_def by blast
qed

lemma bracket_inv_final_open:
  assumes "bracket_inv code (length code) st bm" and "i < length code" and "code ! i = CHR ''[''"
  shows "(i \<in> set st \<and> unmatched_open code i \<and> bm i = None) \<or>
         (\<exists>j. matches code i j \<and> bm i = Some (JumpZeroInstruction (of_nat j)))"
proof (cases "bm i")
  case None
  with assms have "i \<in> set st" unfolding bracket_inv_def by blast
  moreover have "\<not> matches code i j" for j
  proof
    assume "matches code i j"
    moreover then have "j < length code" by (simp add: matches_def)
    ultimately have "bm i \<noteq> None" using assms(1) unfolding bracket_inv_def by auto
    with None show False by simp
  qed
  ultimately show ?thesis using None assms(2,3) by (simp add: unmatched_open_def)
next
  case (Some ins)
  with assms(1) obtain a b where ab: "matches code a b" "i = a \<or> i = b"
    unfolding bracket_inv_def by blast
  with assms(3) have ia: "i = a" by (auto simp add: matches_def)
  with ab assms(1) have bm: "bm i = Some (JumpZeroInstruction (of_nat b))"
    unfolding bracket_inv_def matches_def by blast
  with ia ab show ?thesis by blast
qed

section \<open>The two builders side by side\<close>

lemma builders_rel_initial: "builders_rel code 0 [] (replicate (length code) None) Map.empty"
  by (simp add: builders_rel_def)

lemma builders_rel_push:
  assumes "builders_rel code i st ret bm" and "i < length code" and "code ! i = CHR ''[''"
  shows "builders_rel code (i + 1) (i # st) ret bm"
  using assms unfolding builders_rel_def by (auto simp add: less_Suc_eq)

lemma builders_rel_simple:
  assumes "builders_rel code i st ret bm" and "i < length code"
    and "code ! i \<noteq> CHR ''[''" and "code ! i \<noteq> CHR '']''"
  shows "builders_rel code (i + 1) st
           (case simple_instruction (code ! i) of None \<Rightarrow> ret | Some ins \<Rightarrow> ret[i := Some ins]) bm"
    (is "builders_rel code (i + 1) st ?ret bm")
  unfolding builders_rel_def
proof (intro conjI allI impI ballI)
  from assms(1) have len: "length ret = length code" by (simp add: builders_rel_def)
  show "i + 1 \<le> length code" using assms(2) by simp
  show "length ?ret = length code" using len by (simp split: option.splits)
  {
    fix k assume "k \<in> set st"
    with assms(1) show "k < i + 1" and "code ! k = CHR ''[''" by (auto simp add: builders_rel_def)
  }
  fix k assume k: "k < length code"
  show "?ret ! k =
         (if code ! k = CHR ''['' \<or> code ! k = CHR '']'' then bm k
          else if k < i + 1 then simple_instruction (code ! k)
          else None)"
  proof (cases "k = i")
    case True
    from assms(1,2) have "ret ! i = (if code ! i = CHR ''['' \<or> code ! i = CHR '']'' then bm i
          else if i < i then simple_instruction (code ! i) else None)"
      unfolding builders_rel_def by blast
    with assms(3,4) have "ret ! i = None" by simp
    with True assms(2,3,4) len show ?thesis by (simp split: option.splits)
  next
    case False
    have "?ret ! k = ret ! k" using False by (simp split: option.splits)
    moreover have "k < i + 1 \<longleftrightarrow> k < i" using False by auto
    ultimately show ?thesis using assms(1) k unfolding builders_rel_def by simp
  qed
qed

lemma builders_rel_pop:
  assumes "builders_rel code i (j # st) ret bm" and "i < length code" and "code ! i = CHR '']''"
  shows "builders_rel code (i + 1) st
           (ret[j := Some (JumpZeroInstruction (of_nat i)),
                i := Some (JumpNonzeroInstruction (of_nat j))])
           (bm(j \<mapsto> JumpZeroInstruction (of_nat i), i \<mapsto> JumpNonzeroInstruction (of_nat j)))"
    (is "builders_rel code (i + 1) st ?ret ?bm")
  unfolding builders_rel_def
proof (intro conjI allI impI ballI)
  from assms(1) have len: "length ret = length code" and j: "j < i" "code ! j = CHR ''[''"
    by (simp_all add: builders_rel_def)
  show "i + 1 \<le> length code" using assms(2) by simp
  show "length ?ret = length code" using len by simp
  {
    fix k assume "k \<in> set st"
    with assms(1) show "k < i + 1" and "code ! k = CHR ''[''" by (auto simp add: builders_rel_def)
  }
  fix k assume k: "k < length code"
  from assms(1) k have old: "ret ! k =
         (if code ! k = CHR ''['' \<or> code ! k = CHR '']'' then bm k
          else if k < i then simple_instruction (code ! k)
          else None)"
    unfolding builders_rel_def by blast
  show "?ret ! k =
         (if code ! k = CHR ''['' \<or> code ! k = CHR '']'' then ?bm k
          else if k < i + 1 then simple_instruction (code ! k)
          else None)"
  proof (cases "k = i")
    case True
    with assms(2,3) len show ?thesis by simp
  next
    case ki: False
    show ?thesis
    proof (cases "k = j")
      case True
      with j assms(2) len show ?thesis by simp
    next
      case False
      have "?ret ! k = ret ! k" using False ki by simp
      moreover have "?bm k = bm k" using False ki by simp
      moreover have "k < i + 1 \<longleftrightarrow> k < i" using ki by auto
      ultimately show ?thesis using old by simp
    qed
  qed
qed

lemma parse_code_loop_push:
  "i < length code \<Longrightarrow> code ! i = CHR ''['' \<Longrightarrow>
   parse_code_loop code i st ret = parse_code_loop code (i + 1) (i # st) ret"
  by (subst parse_code_loop.simps) simp

lemma parse_code_loop_simple:
  "i < length code \<Longrightarrow> code ! i \<noteq> CHR ''['' \<Longrightarrow> code ! i \<noteq> CHR '']'' \<Longrightarrow>
   parse_code_loop code i st ret =
     parse_code_loop code (i + 1) st
       (case simple_instruction (code ! i) of None \<Rightarrow> ret | Some ins \<Rightarrow> ret[i := Some ins])"
  by (subst parse_code_loop.simps) (simp add: simple_instruction_def)

lemma parse_code_loop_pop:
  "i < length code \<Longrightarrow> code ! i = CHR '']'' \<Longrightarrow>
   parse_code_loop code i (j # st) ret =
     parse_code_loop code (i + 1) st
       (ret[j := Some (JumpZeroInstruction (of_nat i)),
            i := Some (JumpNonzeroInstruction (of_nat j))])"
  by (subst parse_code_loop.simps) simp

lemma parse_code_loop_empty:
  "i < length code \<Longrightarrow> code ! i = CHR '']'' \<Longrightarrow>
   parse_code_loop code i [] ret = Inl UndefinedBehaviour"
  by (subst parse_code_loop.simps) simp

lemma parse_code_loop_end:
  "\<not> i < length code \<Longrightarrow> parse_code_loop code i st ret = Inr ret"
  by (subst parse_code_loop.simps) simp

lemma builders_lockstep:
  "builders_rel code i st ret bm \<Longrightarrow>
   (case build_bracket_map_loop code i st bm of
      Inl e \<Rightarrow> parse_code_loop code i st ret = Inl e
    | Inr bm' \<Rightarrow>
        (\<exists>ret' st'. parse_code_loop code i st ret = Inr ret' \<and>
           builders_rel code (length code) st' ret' bm'))"
proof (induction code i st bm arbitrary: ret rule: build_bracket_map_loop.induct)
  case (1 code i st bm)
  show ?case
  proof (cases "i < length code")
    case False
    then have "build_bracket_map_loop code i st bm = Inr bm"
      by (subst build_bracket_map_loop.simps) simp
    moreover from "1.prems" False have "i = length code" by (simp add: builders_rel_def)
    with "1.prems" have "builders_rel code (length code) st ret bm" by simp
    ultimately show ?thesis using False by (auto simp add: parse_code_loop_end)
  next
    case i: True
    show ?thesis
    proof (cases "CHR ''['' = code ! i")
      case True
      have eq: "build_bracket_map_loop code i st bm =
          build_bracket_map_loop code (i + 1) (i # st) bm"
        using i True by (subst build_bracket_map_loop.simps) simp
      from "1.prems" i True have "builders_rel code (i + 1) (i # st) ret bm"
        by (intro builders_rel_push) simp_all
      from "1.IH"(1) [OF i True this] show ?thesis
        using i True by (simp only: eq parse_code_loop_push [of i code st ret])
    next
      case no: False
      show ?thesis
      proof (cases "CHR '']'' = code ! i")
        case False
        have eq: "build_bracket_map_loop code i st bm =
            build_bracket_map_loop code (i + 1) st bm"
          using i no False by (subst build_bracket_map_loop.simps) simp
        have eq': "parse_code_loop code i st ret = parse_code_loop code (i + 1) st
            (case simple_instruction (code ! i) of None \<Rightarrow> ret | Some ins \<Rightarrow> ret[i := Some ins])"
          using i no False by (intro parse_code_loop_simple) auto
        from "1.prems" i no False have "builders_rel code (i + 1) st
            (case simple_instruction (code ! i) of None \<Rightarrow> ret | Some ins \<Rightarrow> ret[i := Some ins]) bm"
          by (intro builders_rel_simple) auto
        from "1.IH"(3) [OF i no False this] show ?thesis by (simp only: eq eq')
      next
        case True
        show ?thesis
        proof (cases st)
          case Nil
          have eq: "build_bracket_map_loop code i st bm = Inl UndefinedBehaviour"
            using i no True Nil by (subst build_bracket_map_loop.simps) simp
          show ?thesis unfolding eq using i True Nil by (simp add: parse_code_loop_empty)
        next
          case (Cons j rest)
          have eq: "build_bracket_map_loop code i st bm =
              build_bracket_map_loop code (i + 1) rest
                (bm(j \<mapsto> JumpZeroInstruction (of_nat i), i \<mapsto> JumpNonzeroInstruction (of_nat j)))"
            using i no True Cons by (subst build_bracket_map_loop.simps) (simp del: fun_upd_apply)
          have eq': "parse_code_loop code i st ret = parse_code_loop code (i + 1) rest
              (ret[j := Some (JumpZeroInstruction (of_nat i)),
                   i := Some (JumpNonzeroInstruction (of_nat j))])"
            using i True Cons by (simp only: parse_code_loop_pop [of i code j rest ret])
          from Cons "1.prems" i True have "builders_rel code (i + 1) rest
              (ret[j := Some (JumpZeroInstruction (of_nat i)),
                   i := Some (JumpNonzeroInstruction (of_nat j))])
              (bm(j \<mapsto> JumpZeroInstruction (of_nat i), i \<mapsto> JumpNonzeroInstruction (of_nat j)))"
            by (intro builders_rel_pop) simp_all
          from "1.IH"(2) [OF i no True Cons this] show ?thesis by (simp only: eq eq')
        qed
      qed
    qed
  qed
qed

lemma parse_code_cases:
  "(case build_bracket_map code of
      Inl e \<Rightarrow> parse_code code = Inl e
    | Inr bm \<Rightarrow>
        (\<exists>ret st. parse_code code = Inr ret \<and> builders_rel code (length code) st ret bm))"
  unfolding build_bracket_map_def parse_code_def
  by (rule builders_lockstep [OF builders_rel_initial])

lemma unat_of_nat_index: "j < 2 ^ 64 \<Longrightarrow> unat (of_nat j :: size_t) = j"
  by (simp add: unat_of_nat)

section \<open>Equivalence of the two builders\<close>

lemma step_same_code:
  "same_code c1 c2 \<Longrightarrow> running c1 m \<Longrightarrow> step c1 m = step c2 m"
  by (simp add: same_code_def running_def step_def)

lemma same_code_sym: "same_code c1 c2 \<Longrightarrow> same_code c2 c1"
  by (simp add: same_code_def)

lemma running_same_code: "same_code c1 c2 \<Longrightarrow> running c1 m = running c2 m"
  by (simp add: same_code_def running_def)

lemma interpret_code_same_Some:
  assumes "interpret_code c1 m = Some r"
  shows "same_code c1 c2 \<longrightarrow> interpret_code c2 m = Some r"
proof (rule interpret_code.raw_induct
    [of "\<lambda>c1 m r. same_code c1 c2 \<longrightarrow> interpret_code c2 m = Some r", OF _ assms])
  fix interpret_code' c1 m r
  assume IH: "\<And>c m r. interpret_code' c m = Some r \<Longrightarrow>
        same_code c c2 \<longrightarrow> interpret_code c2 m = Some r"
    and eq: "(if unat (program_counter (fst m)) < code_size c1
      then case step c1 m of Inl e \<Rightarrow> Some (Inl e)
           | Inr m' \<Rightarrow> interpret_code' c1 m'
      else Some (Inr m)) = Some r"
  show "same_code c1 c2 \<longrightarrow> interpret_code c2 m = Some r"
  proof
    assume same: "same_code c1 c2"
    show "interpret_code c2 m = Some r"
    proof (cases "running c1 m")
      case False
      with eq have "r = Inr m" by (simp add: running_def)
      moreover from False same have "\<not> running c2 m" by (simp add: running_same_code)
      ultimately show ?thesis by (simp add: interpret_code_halted running_def)
    next
      case True
      with same have run2: "running c2 m" and st: "step c2 m = step c1 m"
        by (simp_all add: running_same_code step_same_code)
      show ?thesis
      proof (cases "step c1 m")
        case (Inl e)
        with True eq have "r = Inl e" by (simp add: running_def)
        with run2 st Inl show ?thesis by (simp add: interpret_code_running running_def)
      next
        case (Inr m1)
        with True eq have "interpret_code' c1 m1 = Some r" by (simp add: running_def)
        from IH [OF this] same have "interpret_code c2 m1 = Some r" by simp
        with run2 st Inr show ?thesis by (simp add: interpret_code_running running_def)
      qed
    qed
  qed
qed

lemma interpret_code_same:
  assumes "same_code c1 c2"
  shows "interpret_code c1 m = interpret_code c2 m"
proof (cases "interpret_code c1 m")
  case (Some r)
  with interpret_code_same_Some [OF Some, of c2] assms show ?thesis by simp
next
  case None
  show ?thesis
  proof (cases "interpret_code c2 m")
    case (Some r)
    with interpret_code_same_Some [OF Some, of c1] same_code_sym [OF assms] None
    show ?thesis by simp
  next
    case n: None
    with None show ?thesis by simp
  qed
qed

text \<open>What \<^verbatim>\<open>operator[]\<close> returns where the character is not a bracket.\<close>

lemma flyweight_at_simple:
  "i < length (m_code fw) \<Longrightarrow> m_code fw ! i \<noteq> CHR ''['' \<Longrightarrow> m_code fw ! i \<noteq> CHR '']'' \<Longrightarrow>
   m_out fw = StdOutputter \<Longrightarrow>
   flyweight_at fw i = Inr (simple_instruction (m_code fw ! i))"
  by (simp add: flyweight_at_def simple_instruction_def)

lemma flyweight_at_bracket:
  "i < length (m_code fw) \<Longrightarrow> m_code fw ! i = CHR ''['' \<or> m_code fw ! i = CHR '']'' \<Longrightarrow>
   flyweight_at fw i =
     (case m_bracket_map fw i of None \<Rightarrow> Inl OutOfRange | Some ins \<Rightarrow> Inr (Some ins))"
  by (auto simp add: flyweight_at_def)

text \<open>The outcome of both builders on a balanced text.\<close>

lemma balanced_builders:
  assumes "balanced code"
  shows "\<exists>bm ret. build_bracket_map code = Inr bm \<and> parse_code code = Inr ret \<and>
           bracket_inv code (length code) [] bm \<and>
           (\<exists>st. builders_rel code (length code) st ret bm)"
proof -
  from build_bracket_map_cases [of code] assms obtain bm st where
    bm: "build_bracket_map code = Inr bm" "bracket_inv code (length code) st bm"
    by blast
  from bm(2) assms have "st = []"
    by (intro open_segments_final) (simp_all add: bracket_inv_def)
  moreover from parse_code_cases [of code] bm(1) obtain ret st' where
    "parse_code code = Inr ret" "builders_rel code (length code) st' ret bm"
    by auto
  ultimately show ?thesis using bm by blast
qed

lemma balanced_same_code:
  assumes "bracket_inv code (length code) [] bm"
    and "builders_rel code (length code) st ret bm"
  shows "same_code (UniquePtrCode ret)
           (Flyweight \<lparr>m_code = code, m_bracket_map = bm, m_out = StdOutputter\<rparr>)"
    (is "same_code _ (Flyweight ?fw)")
  unfolding same_code_def
proof (intro conjI allI impI)
  from assms(2) have len: "length ret = length code" by (simp add: builders_rel_def)
  then show "code_size (UniquePtrCode ret) = code_size (Flyweight ?fw)" by simp
  fix i assume "i < code_size (UniquePtrCode ret)"
  with len have i: "i < length code" by simp
  with assms(2) have ret: "ret ! i =
      (if code ! i = CHR ''['' \<or> code ! i = CHR '']'' then bm i
       else simple_instruction (code ! i))"
    unfolding builders_rel_def by simp
  show "code_at (UniquePtrCode ret) i = code_at (Flyweight ?fw) i"
  proof (cases "code ! i = CHR ''['' \<or> code ! i = CHR '']''")
    case True
    with assms(1) i have "bm i \<noteq> None" unfolding bracket_inv_def by auto
    then show ?thesis using True i ret len by (auto simp add: flyweight_at_bracket)
  next
    case False
    then show ?thesis using i ret len by (simp add: flyweight_at_simple)
  qed
qed

text \<open>
  C10. For every text with balanced brackets both builders succeed, \<^verbatim>\<open>parse_code\<close>
  and the constructor of \<^verbatim>\<open>FlyweightCode\<close> with the \<^verbatim>\<open>StdOutputter\<close> that
  \<^verbatim>\<open>parse_code\<close> fixes (the flyweight's default, and the one \<^verbatim>\<open>main\<close> uses). The two
  programs have the same size; at every index the flyweight's \<^verbatim>\<open>operator[]\<close> returns
  the very instruction the vector holds there, so a step does the same to every machine
  and \<^verbatim>\<open>interpret\<close> gives the same result with either: the same final machine, the
  same error, or no return from both.
\<close>

theorem builders_equivalent:
  "balanced code \<Longrightarrow>
   \<exists>prog fw. parse_code code = Inr prog \<and> FlyweightCode_ctor StdOutputter code = Inr fw \<and>
     code_size (UniquePtrCode prog) = code_size (Flyweight fw) \<and>
     (\<forall>i < length code. code_at (Flyweight fw) i = Inr (prog ! i)) \<and>
     (\<forall>m. running (Flyweight fw) m \<longrightarrow> step (UniquePtrCode prog) m = step (Flyweight fw) m) \<and>
     (\<forall>m. interpret_code (UniquePtrCode prog) m = interpret_code (Flyweight fw) m)"
proof -
  assume "balanced code"
  from balanced_builders [OF this] obtain bm ret st where
    b: "build_bracket_map code = Inr bm" "parse_code code = Inr ret"
      "bracket_inv code (length code) [] bm" "builders_rel code (length code) st ret bm"
    by blast
  let ?fw = "\<lparr>m_code = code, m_bracket_map = bm, m_out = StdOutputter\<rparr>"
  have same: "same_code (UniquePtrCode ret) (Flyweight ?fw)"
    using b(3,4) by (rule balanced_same_code)
  have ctor: "FlyweightCode_ctor StdOutputter code = Inr ?fw"
    using b(1) by (simp add: FlyweightCode_ctor_def)
  have size: "code_size (UniquePtrCode ret) = code_size (Flyweight ?fw)"
    using same by (simp add: same_code_def)
  have at: "\<forall>i < length code. code_at (Flyweight ?fw) i = Inr (ret ! i)"
  proof (intro allI impI)
    fix i assume "i < length code"
    with same size have "code_at (Flyweight ?fw) i = code_at (UniquePtrCode ret) i"
      by (simp add: same_code_def)
    with \<open>i < length code\<close> size show "code_at (Flyweight ?fw) i = Inr (ret ! i)" by simp
  qed
  have st: "\<forall>m. running (Flyweight ?fw) m \<longrightarrow> step (UniquePtrCode ret) m = step (Flyweight ?fw) m"
    using same by (simp add: step_same_code running_same_code)
  have run: "\<forall>m. interpret_code (UniquePtrCode ret) m = interpret_code (Flyweight ?fw) m"
    using same by (simp add: interpret_code_same)
  from b(2) ctor size at st run show ?thesis by blast
qed

lemma balanced_plus_loop: "balanced ''+[-]''"
  by (simp add: balanced_def)

text \<open>
  The theorem at \<open>+[-]\<close>: both builders succeed there, index 1 holds the
  \<open>JumpZeroInstruction 3\<close> in both, and both programs run alike from the initial state.
\<close>

theorem builders_equivalent_witness:
  "balanced ''+[-]'' \<and>
   (\<exists>prog fw. parse_code ''+[-]'' = Inr prog \<and>
      FlyweightCode_ctor StdOutputter ''+[-]'' = Inr fw \<and>
      code_at (Flyweight fw) 1 = Inr (prog ! 1) \<and>
      prog ! 1 = Some (JumpZeroInstruction 3) \<and>
      interpret_code (UniquePtrCode prog) (initial_state, \<lparr>stdin = [], stdout = []\<rparr>) =
        interpret_code (Flyweight fw) (initial_state, \<lparr>stdin = [], stdout = []\<rparr>))"
proof -
  from builders_equivalent [OF balanced_plus_loop] obtain prog fw where
    "parse_code ''+[-]'' = Inr prog" "FlyweightCode_ctor StdOutputter ''+[-]'' = Inr fw"
    "\<forall>i < length ''+[-]''. code_at (Flyweight fw) i = Inr (prog ! i)"
    "\<forall>m. interpret_code (UniquePtrCode prog) m = interpret_code (Flyweight fw) m"
    by blast
  moreover from this(1) have "prog ! 1 = Some (JumpZeroInstruction 3)"
    by (auto simp add: parse_plus_loop)
  ultimately show ?thesis using balanced_plus_loop
    by (intro conjI exI [of _ prog] exI [of _ fw]) simp_all
qed

section \<open>Programs with balanced brackets\<close>

text \<open>
  C2. For every text with balanced brackets (of a length that fits \<^verbatim>\<open>size_t\<close>, as
  every \<^verbatim>\<open>std::string\<close> has) construction succeeds, by the constructor of
  \<^verbatim>\<open>FlyweightCode\<close> and by \<^verbatim>\<open>parse_code\<close> alike, and the program has the text's
  length. At every index of a \<open>[\<close> the program holds a \<open>JumpZeroInstruction\<close> whose
  target is the index of the matching \<open>]\<close>, and at every index of a \<open>]\<close> a
  \<open>JumpNonzeroInstruction\<close> whose target is the index of the matching \<open>[\<close>; the
  matching bracket exists and is the only one.
\<close>

theorem balanced_program_resolves:
  "balanced code \<Longrightarrow> length code < 2 ^ 64 \<Longrightarrow>
   \<exists>fw prog. FlyweightCode_ctor outp code = Inr fw \<and> parse_code code = Inr prog \<and>
     code_size (Flyweight fw) = length code \<and> code_size (UniquePtrCode prog) = length code \<and>
     (\<forall>i < length code.
        (code ! i = CHR ''['' \<longrightarrow>
           (\<exists>t. matches code i (unat t) \<and> (\<forall>j. matches code i j \<longrightarrow> j = unat t) \<and>
              code_at (Flyweight fw) i = Inr (Some (JumpZeroInstruction t)) \<and>
              code_at (UniquePtrCode prog) i = Inr (Some (JumpZeroInstruction t)))) \<and>
        (code ! i = CHR '']'' \<longrightarrow>
           (\<exists>t. matches code (unat t) i \<and> (\<forall>j. matches code j i \<longrightarrow> j = unat t) \<and>
              code_at (Flyweight fw) i = Inr (Some (JumpNonzeroInstruction t)) \<and>
              code_at (UniquePtrCode prog) i = Inr (Some (JumpNonzeroInstruction t)))))"
proof -
  assume bal: "balanced code" and small: "length code < 2 ^ 64"
  from balanced_builders [OF bal] obtain bm ret st where
    b: "build_bracket_map code = Inr bm" "parse_code code = Inr ret"
      "bracket_inv code (length code) [] bm" "builders_rel code (length code) st ret bm"
    by blast
  let ?fw = "\<lparr>m_code = code, m_bracket_map = bm, m_out = outp\<rparr>"
  have ctor: "FlyweightCode_ctor outp code = Inr ?fw"
    using b(1) by (simp add: FlyweightCode_ctor_def)
  from b(4) have len: "length ret = length code" by (simp add: builders_rel_def)
  have ret: "ret ! i = bm i" if "i < length code" "code ! i = CHR ''['' \<or> code ! i = CHR '']''" for i
    using b(4) that unfolding builders_rel_def by simp
  have "(code ! i = CHR ''['' \<longrightarrow>
           (\<exists>t. matches code i (unat t) \<and> (\<forall>j. matches code i j \<longrightarrow> j = unat t) \<and>
              code_at (Flyweight ?fw) i = Inr (Some (JumpZeroInstruction t)) \<and>
              code_at (UniquePtrCode ret) i = Inr (Some (JumpZeroInstruction t)))) \<and>
        (code ! i = CHR '']'' \<longrightarrow>
           (\<exists>t. matches code (unat t) i \<and> (\<forall>j. matches code j i \<longrightarrow> j = unat t) \<and>
              code_at (Flyweight ?fw) i = Inr (Some (JumpNonzeroInstruction t)) \<and>
              code_at (UniquePtrCode ret) i = Inr (Some (JumpNonzeroInstruction t))))"
    if i: "i < length code" for i
  proof (intro conjI impI)
    assume c: "code ! i = CHR ''[''"
    from bracket_inv_final_open [OF b(3) i c] obtain j where
      j: "matches code i j" "bm i = Some (JumpZeroInstruction (of_nat j))"
      by auto
    then have "j < length code" by (simp add: matches_def)
    then have "j < 2 ^ 64" using small by (rule less_trans)
    then have "unat (of_nat j :: size_t) = j" by (rule unat_of_nat_index)
    then obtain t :: size_t where t: "of_nat j = t" "unat t = j" by simp
    have uniq: "\<forall>j'. matches code i j' \<longrightarrow> j' = unat t"
      using j(1) t(2) matches_unique_close by blast
    have fetch: "code_at (Flyweight ?fw) i = Inr (Some (JumpZeroInstruction t))"
      "code_at (UniquePtrCode ret) i = Inr (Some (JumpZeroInstruction t))"
      using j(2) i c ret [of i] len unfolding t(1) by (simp_all add: flyweight_at_bracket)
    from j(1) t(2) have "matches code i (unat t)" by simp
    with uniq fetch show
      "\<exists>t. matches code i (unat t) \<and> (\<forall>j. matches code i j \<longrightarrow> j = unat t) \<and>
         code_at (Flyweight ?fw) i = Inr (Some (JumpZeroInstruction t)) \<and>
         code_at (UniquePtrCode ret) i = Inr (Some (JumpZeroInstruction t))"
      by blast
  next
    assume c: "code ! i = CHR '']''"
    from bracket_inv_final_close [OF b(3) i c] obtain j where
      j: "matches code j i" "bm i = Some (JumpNonzeroInstruction (of_nat j))"
      by auto
    then have "j < length code" by (simp add: matches_def)
    then have "j < 2 ^ 64" using small by (rule less_trans)
    then have "unat (of_nat j :: size_t) = j" by (rule unat_of_nat_index)
    then obtain t :: size_t where t: "of_nat j = t" "unat t = j" by simp
    have uniq: "\<forall>j'. matches code j' i \<longrightarrow> j' = unat t"
      using j(1) t(2) matches_unique_open by blast
    have fetch: "code_at (Flyweight ?fw) i = Inr (Some (JumpNonzeroInstruction t))"
      "code_at (UniquePtrCode ret) i = Inr (Some (JumpNonzeroInstruction t))"
      using j(2) i c ret [of i] len unfolding t(1) by (simp_all add: flyweight_at_bracket)
    from j(1) t(2) have "matches code (unat t) i" by simp
    with uniq fetch show
      "\<exists>t. matches code (unat t) i \<and> (\<forall>j. matches code j i \<longrightarrow> j = unat t) \<and>
         code_at (Flyweight ?fw) i = Inr (Some (JumpNonzeroInstruction t)) \<and>
         code_at (UniquePtrCode ret) i = Inr (Some (JumpNonzeroInstruction t))"
      by blast
  qed
  then have "\<forall>i < length code. (code ! i = CHR ''['' \<longrightarrow>
           (\<exists>t. matches code i (unat t) \<and> (\<forall>j. matches code i j \<longrightarrow> j = unat t) \<and>
              code_at (Flyweight ?fw) i = Inr (Some (JumpZeroInstruction t)) \<and>
              code_at (UniquePtrCode ret) i = Inr (Some (JumpZeroInstruction t)))) \<and>
        (code ! i = CHR '']'' \<longrightarrow>
           (\<exists>t. matches code (unat t) i \<and> (\<forall>j. matches code j i \<longrightarrow> j = unat t) \<and>
              code_at (Flyweight ?fw) i = Inr (Some (JumpNonzeroInstruction t)) \<and>
              code_at (UniquePtrCode ret) i = Inr (Some (JumpNonzeroInstruction t))))"
    by blast
  moreover have "code_size (Flyweight ?fw) = length code" by simp
  moreover have "code_size (UniquePtrCode ret) = length code" using len by simp
  ultimately show ?thesis using ctor b(2) by blast
qed

text \<open>
  The theorem at \<open>+[-]\<close>: the brackets at 1 and 3 match, and the two slots hold
  \<open>JumpZeroInstruction 3\<close> and \<open>JumpNonzeroInstruction 1\<close> in both programs.
\<close>

theorem balanced_program_resolves_witness:
  "balanced ''+[-]'' \<and> length ''+[-]'' < 2 ^ 64 \<and>
   (\<exists>fw prog. FlyweightCode_ctor StdOutputter ''+[-]'' = Inr fw \<and> parse_code ''+[-]'' = Inr prog \<and>
      matches ''+[-]'' 1 3 \<and>
      code_at (Flyweight fw) 1 = Inr (Some (JumpZeroInstruction 3)) \<and>
      code_at (UniquePtrCode prog) 1 = Inr (Some (JumpZeroInstruction 3)) \<and>
      code_at (Flyweight fw) 3 = Inr (Some (JumpNonzeroInstruction 1)) \<and>
      code_at (UniquePtrCode prog) 3 = Inr (Some (JumpNonzeroInstruction 1)))"
proof -
  have small: "length ''+[-]'' < 2 ^ 64" by simp
  have m: "matches ''+[-]'' 1 3" by (simp add: matches_def segment_def balanced_def)
  from balanced_program_resolves [OF balanced_plus_loop small, of StdOutputter]
  obtain fw prog where r: "FlyweightCode_ctor StdOutputter ''+[-]'' = Inr fw"
    "parse_code ''+[-]'' = Inr prog"
    by blast
  from r(1) have fw: "fw = \<lparr>m_code = ''+[-]'',
      m_bracket_map = Map.empty(1 \<mapsto> JumpZeroInstruction 3, 3 \<mapsto> JumpNonzeroInstruction 1),
      m_out = StdOutputter\<rparr>"
    by (auto simp add: FlyweightCode_ctor_def build_plus_loop)
  from r(2) have prog: "prog = [Some IncDataInstruction, Some (JumpZeroInstruction 3),
      Some DecDataInstruction, Some (JumpNonzeroInstruction 1)]"
    by (auto simp add: parse_plus_loop)
  have "code_at (Flyweight fw) 1 = Inr (Some (JumpZeroInstruction 3))"
    "code_at (Flyweight fw) 3 = Inr (Some (JumpNonzeroInstruction 1))"
    unfolding fw by (simp_all add: flyweight_at_def)
  moreover have "code_at (UniquePtrCode prog) 1 = Inr (Some (JumpZeroInstruction 3))"
    "code_at (UniquePtrCode prog) 3 = Inr (Some (JumpNonzeroInstruction 1))"
    unfolding prog by (simp_all add: numeral_3_eq_3)
  ultimately show ?thesis using balanced_plus_loop small m r
    by (intro conjI exI [of _ prog] exI [of _ fw]) simp_all
qed

section \<open>Programs with unbalanced brackets\<close>

lemma interpret_code_fetch_error:
  "running code m \<Longrightarrow> step code m = Inl e \<Longrightarrow> interpret_code code m = Some (Inl e)"
  by (simp add: interpret_code_running running_def)

text \<open>
  C1 as stated fails at the source \<open>+[\<close>, whose \<open>[\<close> at index 1 is unmatched. The
  constructor of \<^verbatim>\<open>FlyweightCode\<close> returns a program with an empty bracket map and
  raises nothing; the dispatch loop executes the \<open>+\<close> (the first cell becomes 1); only
  the fetch at index 1 throws \<^verbatim>\<open>std::out_of_range\<close>, which ends \<open>main\<close>.
\<close>

theorem malformed_program_counterexample:
  "unmatched_open ''+['' 1 \<and>
   FlyweightCode_ctor StdOutputter ''+['' =
     Inr \<lparr>m_code = ''+['', m_bracket_map = Map.empty, m_out = StdOutputter\<rparr> \<and>
   step (Flyweight \<lparr>m_code = ''+['', m_bracket_map = Map.empty, m_out = StdOutputter\<rparr>)
     (initial_state, \<lparr>stdin = [], stdout = []\<rparr>) =
     Inr (\<lparr>data_counter = 0, program_counter = 1, field = (replicate 0x2000 0)[0 := 1]\<rparr>,
          \<lparr>stdin = [], stdout = []\<rparr>) \<and>
   main [''bf'', ''prog.bf''] [''prog.bf'' \<mapsto> ''+[''] \<lparr>stdin = [], stdout = []\<rparr> =
     Some (Inl OutOfRange)"
proof -
  let ?fw = "\<lparr>m_code = ''+['', m_bracket_map = Map.empty, m_out = StdOutputter\<rparr>"
  let ?w = "\<lparr>stdin = [], stdout = []\<rparr>"
  let ?s1 = "\<lparr>data_counter = 0, program_counter = 1, field = (replicate 0x2000 (0 :: uint8_t))[0 := 1]\<rparr>"
  have u: "unmatched_open ''+['' 1"
    by (simp add: unmatched_open_def matches_def)
  have ctor: "FlyweightCode_ctor StdOutputter ''+['' = Inr ?fw"
    by (simp add: FlyweightCode_ctor_def build_bracket_map_def build_bracket_map_loop.simps)
  have 1: "step (Flyweight ?fw) (initial_state, ?w) = Inr (?s1, ?w)"
    by (simp add: step_def flyweight_at_def initial_state_def in_field_def cell_def set_cell_def)
  have 2: "step (Flyweight ?fw) (?s1, ?w) = Inl OutOfRange"
    by (simp add: step_def flyweight_at_def)
  have "interpret_code (Flyweight ?fw) (?s1, ?w) = Some (Inl OutOfRange)"
    using 2 by (intro interpret_code_fetch_error) (simp_all add: running_def)
  then have "interpret_code (Flyweight ?fw) (initial_state, ?w) = Some (Inl OutOfRange)"
    using 1 by (simp add: interpret_code_running initial_state_def)
  then have "main [''bf'', ''prog.bf''] [''prog.bf'' \<mapsto> ''+[''] ?w = Some (Inl OutOfRange)"
    using ctor by (simp add: main_def copy_if_bf_def is_bf_char_def)
  with u ctor 1 show ?thesis by simp
qed

text \<open>
  A text with an unmatched \<open>]\<close> takes both builders to \<^verbatim>\<open>back()\<close> on an empty
  stack, where the program has no defined behaviour.
\<close>

lemma unmatched_close_undefined:
  assumes "\<exists>j. unmatched_close code j"
  shows "FlyweightCode_ctor outp code = Inl UndefinedBehaviour \<and>
         parse_code code = Inl UndefinedBehaviour"
proof -
  from assms obtain j where j: "unmatched_close code j" ..
  have bm: "build_bracket_map code = Inl UndefinedBehaviour"
  proof (rule ccontr)
    assume "build_bracket_map code \<noteq> Inl UndefinedBehaviour"
    with build_bracket_map_cases [of code] obtain bm st where
      "bracket_inv code (length code) st bm" by blast
    from bracket_inv_final_close [OF this, of j] j obtain i where "matches code i j"
      by (auto simp add: unmatched_close_def)
    moreover then have "i < j" by (simp add: matches_def)
    ultimately show False using j by (simp add: unmatched_close_def)
  qed
  then have "FlyweightCode_ctor outp code = Inl UndefinedBehaviour"
    by (simp add: FlyweightCode_ctor_def)
  moreover from parse_code_cases [of code] bm have "parse_code code = Inl UndefinedBehaviour"
    by simp
  ultimately show ?thesis ..
qed

text \<open>
  C1, amended. Neither builder checks the bracket stack, and there is no
  malformed-program error. On every text without an unmatched \<open>]\<close>, whether or not a
  \<open>[\<close> is left unmatched, both builders return a program of the text's length. The
  slot of an unmatched \<open>[\<close> holds no instruction: the flyweight has no entry for it
  in its bracket map, so its \<^verbatim>\<open>operator[]\<close> throws \<^verbatim>\<open>std::out_of_range\<close> there, and
  the vector of \<^verbatim>\<open>parse_code\<close> holds a null pointer. The dispatch loop over the
  flyweight therefore runs until its program counter stands at such a slot, and ends
  there with the exception.
\<close>

theorem unbalanced_construction:
  "\<not> (\<exists>j. unmatched_close code j) \<Longrightarrow>
   \<exists>fw prog. FlyweightCode_ctor outp code = Inr fw \<and> parse_code code = Inr prog \<and>
     code_size (Flyweight fw) = length code \<and> code_size (UniquePtrCode prog) = length code \<and>
     (\<forall>i. unmatched_open code i \<longrightarrow>
        code_at (Flyweight fw) i = Inl OutOfRange \<and>
        code_at (UniquePtrCode prog) i = Inr None \<and>
        (\<forall>state w. unat (program_counter state) = i \<longrightarrow>
           interpret_code (Flyweight fw) (state, w) = Some (Inl OutOfRange)))"
proof -
  assume none: "\<not> (\<exists>j. unmatched_close code j)"
  with build_bracket_map_cases [of code] obtain bm st where
    bm: "build_bracket_map code = Inr bm" "bracket_inv code (length code) st bm" by blast
  from parse_code_cases [of code] bm(1) obtain ret st' where
    ret: "parse_code code = Inr ret" "builders_rel code (length code) st' ret bm" by auto
  let ?fw = "\<lparr>m_code = code, m_bracket_map = bm, m_out = outp\<rparr>"
  have ctor: "FlyweightCode_ctor outp code = Inr ?fw"
    using bm(1) by (simp add: FlyweightCode_ctor_def)
  from ret(2) have len: "length ret = length code" by (simp add: builders_rel_def)
  have open_slot: "code_at (Flyweight ?fw) i = Inl OutOfRange \<and>
            code_at (UniquePtrCode ret) i = Inr None \<and>
            (\<forall>state w. unat (program_counter state) = i \<longrightarrow>
               interpret_code (Flyweight ?fw) (state, w) = Some (Inl OutOfRange))"
    if u: "unmatched_open code i" for i
  proof -
    from u have i: "i < length code" and c: "code ! i = CHR ''[''"
      and no: "\<And>j. \<not> matches code i j"
      by (auto simp add: unmatched_open_def matches_def)
    from bracket_inv_final_open [OF bm(2) i c] no have none: "bm i = None" by blast
    with i c have f: "code_at (Flyweight ?fw) i = Inl OutOfRange"
      by (simp add: flyweight_at_bracket)
    from ret(2) i c none have "ret ! i = None" unfolding builders_rel_def by simp
    with i len have v: "code_at (UniquePtrCode ret) i = Inr None" by simp
    have "interpret_code (Flyweight ?fw) (state, w) = Some (Inl OutOfRange)"
      if pc: "unat (program_counter state) = i" for state w
      using pc i f by (intro interpret_code_fetch_error) (simp_all add: running_def step_def)
    with f v show ?thesis by blast
  qed
  have "code_size (Flyweight ?fw) = length code" by simp
  moreover have "code_size (UniquePtrCode ret) = length code" using len by simp
  ultimately show ?thesis using ctor ret(1) open_slot by blast
qed

text \<open>
  The theorem at \<open>+[\<close>, which has no unmatched \<open>]\<close> and an unmatched \<open>[\<close> at
  index 1.
\<close>

theorem unbalanced_construction_witness:
  "\<not> (\<exists>j. unmatched_close ''+['' j) \<and> unmatched_open ''+['' 1 \<and>
   (\<exists>fw prog. FlyweightCode_ctor StdOutputter ''+['' = Inr fw \<and> parse_code ''+['' = Inr prog \<and>
      code_at (Flyweight fw) 1 = Inl OutOfRange \<and> code_at (UniquePtrCode prog) 1 = Inr None \<and>
      interpret_code (Flyweight fw)
        (\<lparr>data_counter = 0, program_counter = 1, field = [1]\<rparr>, \<lparr>stdin = [], stdout = []\<rparr>) =
        Some (Inl OutOfRange))"
proof -
  let ?s = "\<lparr>data_counter = 0, program_counter = 1, field = [1 :: uint8_t]\<rparr>"
  have n: "\<not> (\<exists>j. unmatched_close ''+['' j)"
    by (auto simp add: unmatched_close_def less_Suc_eq numeral_2_eq_2)
  have u: "unmatched_open ''+['' 1" by (simp add: unmatched_open_def matches_def)
  have pc: "unat (program_counter ?s) = 1" by simp
  from unbalanced_construction [OF n, of StdOutputter] u pc
  have "\<exists>fw prog. FlyweightCode_ctor StdOutputter ''+['' = Inr fw \<and> parse_code ''+['' = Inr prog \<and>
      code_at (Flyweight fw) 1 = Inl OutOfRange \<and> code_at (UniquePtrCode prog) 1 = Inr None \<and>
      interpret_code (Flyweight fw) (?s, \<lparr>stdin = [], stdout = []\<rparr>) = Some (Inl OutOfRange)"
    by blast
  then show ?thesis using n u by blast
qed

end
